theory Spec2Isabelle
  imports Main "HOL-Library.Word" "HOL-Library.AList" "HOL-Library.Sublist"
begin

unbundle bit_operations_syntax

section \<open>The agent GUI wrapper: \<open>cmd/agent/main.go\<close>\<close>

text \<open>
  The program composes an agent (package \<open>agent\<close>), the user environment helpers of
  package \<open>util\<close> and the tray loop of package \<open>systray\<close>. Only \<open>main.go\<close> is
  verified here: the functions of the other packages are parameters of the model
  (the record \<open>api\<close>), acting on a state of the outside world of an arbitrary type
  \<open>'w\<close>. Every call \<open>main.go\<close> makes to them, and every line it logs, is appended
  to a trace, so that the order of the calls can be stated.
\<close>

subsection \<open>Data\<close>

text \<open>The connector kinds \<open>main.go\<close> names (constants of package \<open>agent\<close>).\<close>

datatype ConnectorType =
    ConnectorSockAgent
  | ConnectorSockAgentExtra
  | ConnectorSockAgentSSH
  | ConnectorSockAgentCygwinSSH
  | ConnectorPipeSSH
  | ConnectorExtraPort

text \<open>
  \<open>systray.SessionEvent\<close>: the two kinds \<open>onSession\<close> names, and every other kind
  the tray loop may deliver, told apart by a number.
\<close>

datatype SessionEvent = SesLock | SesUnlock | SesOther nat

type_synonym byte = "8 word"

text \<open>The fields of \<open>config.Config\<close> that \<open>main.go\<close> reads.\<close>

record Config =
  GUI_PipeName :: string
  GUI_Home :: string
  GUI_ExtraPort :: int
  GUI_SetEnv :: bool
  GUI_SSH :: string
  GUI_Clp_Keys :: "string list"
  GUI_Clp_Port :: int
  GUI_Clp_LE :: string
  GPG_Home :: string

text \<open>
  A Go \<open>error\<close> is \<open>string option\<close>: \<open>None\<close> is \<open>nil\<close>, \<open>Some m\<close> an error whose
  \<open>Error()\<close> is \<open>m\<close>.
\<close>

type_synonym error = "string option"

record 'w api =
  Serve :: "ConnectorType \<Rightarrow> 'w \<Rightarrow> error \<times> 'w"
  Close :: "ConnectorType \<Rightarrow> 'w \<Rightarrow> 'w"
  Start :: "'w \<Rightarrow> error \<times> 'w"
  Stop :: "'w \<Rightarrow> error \<times> 'w"
  SessionLock :: "'w \<Rightarrow> 'w"
  SessionUnlock :: "'w \<Rightarrow> 'w"
  PathGUI :: "ConnectorType \<Rightarrow> 'w \<Rightarrow> string"
  PrepareUserEnvironmentVariable :: "string \<Rightarrow> string \<Rightarrow> bool \<Rightarrow> bool \<Rightarrow> 'w \<Rightarrow> error \<times> 'w"
  CleanUserEnvironmentVariable :: "string \<Rightarrow> bool \<Rightarrow> 'w \<Rightarrow> error \<times> 'w"
  PrepareWindowsPath :: "string \<Rightarrow> string"

datatype event =
    EvServe ConnectorType
  | EvClose ConnectorType
  | EvStart
  | EvStop
  | EvSessionLock
  | EvSessionUnlock
  | EvPrepare string string bool bool
  | EvClean string bool
  | EvClipCancel
  | EvClipServe int string "(byte list \<times> byte list) list" "byte list"
  | EvLog string

record 'w state =
  world :: 'w
  trace :: "event list"
  clipHelp :: string

definition emit :: "event \<Rightarrow> 'w state \<Rightarrow> 'w state" where
  "emit e s = s\<lparr>trace := trace s @ [e]\<rparr>"

definition log_Print :: "string \<Rightarrow> 'w state \<Rightarrow> 'w state" where
  "log_Print m s = emit (EvLog m) s"

text \<open>A call that returns an error: the event is recorded, the world replaced.\<close>

definition call :: "event \<Rightarrow> ('w \<Rightarrow> error \<times> 'w) \<Rightarrow> 'w state \<Rightarrow> error \<times> 'w state" where
  "call e f s = (case f (world s) of (r, w) \<Rightarrow> (r, emit e (s\<lparr>world := w\<rparr>)))"

text \<open>A call whose result is not used.\<close>

definition call0 :: "event \<Rightarrow> ('w \<Rightarrow> 'w) \<Rightarrow> 'w state \<Rightarrow> 'w state" where
  "call0 e f s = emit e (s\<lparr>world := f (world s)\<rparr>)"

subsection \<open>\<open>onSession\<close>\<close>

fun onSession :: "'w api \<Rightarrow> SessionEvent \<Rightarrow> 'w state \<Rightarrow> 'w state" where
  "onSession A SesLock s = call0 EvSessionLock (SessionLock A) s"
| "onSession A SesUnlock s = call0 EvSessionUnlock (SessionUnlock A) s"
| "onSession A (SesOther n) s = s"

subsection \<open>\<open>setVars\<close>\<close>

definition envGPGHomeName :: string where "envGPGHomeName = ''GNUPG_HOME''"
definition envGUIHomeName :: string where "envGUIHomeName = ''AGENT_HOME''"
definition envPipeName :: string where "envPipeName = ''SSH_AUTH_SOCK''"

text \<open>
  The element type of \<open>vars\<close>. The field \<open>value\<close> of the source is \<open>val\<close> here.
\<close>

record envvar =
  initialized :: bool
  name :: string
  val :: string
  register :: bool
  translate :: bool

text \<open>The slice literal, and the assignment to \<open>vars[0].value\<close> under \<open>!native\<close>.\<close>

definition vars_literal :: "'w api \<Rightarrow> Config \<Rightarrow> envvar list" where
  "vars_literal A cfg =
     [\<lparr>initialized = False, name = envPipeName, val = GUI_PipeName cfg,
        register = False, translate = False\<rparr>,
      \<lparr>initialized = False, name = ''WSL_'' @ envGPGHomeName, val = GPG_Home cfg,
        register = True, translate = True\<rparr>,
      \<lparr>initialized = False, name = ''WIN_'' @ envGPGHomeName,
        val = PrepareWindowsPath A (GPG_Home cfg), register = True, translate = False\<rparr>,
      \<lparr>initialized = False, name = ''WSL_'' @ envGUIHomeName, val = GUI_Home cfg,
        register = True, translate = True\<rparr>,
      \<lparr>initialized = False, name = ''WIN_'' @ envGUIHomeName,
        val = PrepareWindowsPath A (GUI_Home cfg), register = True, translate = False\<rparr>]"

definition setVars_vars :: "'w api \<Rightarrow> Config \<Rightarrow> bool \<Rightarrow> 'w \<Rightarrow> envvar list" where
  "setVars_vars A cfg native w =
     (let vars = vars_literal A cfg in
      if \<not> native
      then vars[0 := (vars ! 0)\<lparr>val := PathGUI A ConnectorSockAgentCygwinSSH w\<rparr>]
      else vars)"

definition call_Clean :: "'w api \<Rightarrow> envvar \<Rightarrow> 'w state \<Rightarrow> error \<times> 'w state" where
  "call_Clean A v s =
     call (EvClean (name v) (register v))
       (CleanUserEnvironmentVariable A (name v) (register v)) s"

definition call_Prepare :: "'w api \<Rightarrow> envvar \<Rightarrow> 'w state \<Rightarrow> error \<times> 'w state" where
  "call_Prepare A v s =
     call (EvPrepare (name v) (val v) (register v) (translate v))
       (PrepareUserEnvironmentVariable A (name v) (val v) (register v) (translate v)) s"

text \<open>
  The body of the \<open>if vars[i].initialized\<close> of \<open>cleaner\<close>, but for the reset of the
  flag: the removal, and the log line when it fails.
\<close>

definition clean_one :: "'w api \<Rightarrow> envvar \<Rightarrow> 'w state \<Rightarrow> 'w state" where
  "clean_one A v s =
     (case call_Clean A v s of
        (Some m, s') \<Rightarrow>
          log_Print (''Unable to delete '' @ name v @ '' from user environment: '' @ m) s'
      | (None, s') \<Rightarrow> s')"

text \<open>
  \<open>cleaner\<close>: \<open>for i := len(vars) - 1; i >= 0; i--\<close>. The first argument of the
  loop is \<open>i + 1\<close>, so the loop ends at 0. The closure owns \<open>vars\<close>: it takes the
  slice as it is and returns it as it leaves it.
\<close>

fun cleaner_loop :: "'w api \<Rightarrow> nat \<Rightarrow> envvar list \<Rightarrow> 'w state \<Rightarrow> envvar list \<times> 'w state" where
  "cleaner_loop A 0 vars s = (vars, s)"
| "cleaner_loop A (Suc i) vars s =
     (if initialized (vars ! i)
      then cleaner_loop A i (vars[i := (vars ! i)\<lparr>initialized := False\<rparr>])
             (clean_one A (vars ! i) s)
      else cleaner_loop A i vars s)"

definition cleaner :: "'w api \<Rightarrow> envvar list \<Rightarrow> 'w state \<Rightarrow> envvar list \<times> 'w state" where
  "cleaner A vars s = cleaner_loop A (length vars) vars s"

definition add_error :: "string \<Rightarrow> string \<Rightarrow> string" where
  "add_error n m = ''unable to add '' @ n @ '' to user environment: '' @ m"

text \<open>
  The loop \<open>register everything\<close>, from index \<open>i\<close>. It returns the error, the slice and
  the state; \<open>setVars\<close> runs it from 0 on any slice.
\<close>

function setVars_register ::
  "'w api \<Rightarrow> nat \<Rightarrow> envvar list \<Rightarrow> 'w state \<Rightarrow> error \<times> envvar list \<times> 'w state" where
  "setVars_register A i vars s =
     (if i < length vars then
        (case call_Prepare A (vars ! i) s of
           (Some m, s') \<Rightarrow>
             (case cleaner A vars s' of
                (vars', s'') \<Rightarrow> (Some (add_error (name (vars ! i)) m), vars', s''))
         | (None, s') \<Rightarrow>
             setVars_register A (Suc i) (vars[i := (vars ! i)\<lparr>initialized := True\<rparr>]) s')
      else (None, vars, s))"
  by pat_completeness auto
termination
  by (relation "measure (\<lambda>(A, i, vars, s). length vars - i)") auto

declare setVars_register.simps [simp del]

text \<open>
  \<open>setVars\<close> returns the cleaner or the error. The cleaner is known by the slice it
  closes over: \<open>Inr vars\<close> stands for \<open>(cleaner, nil)\<close>, \<open>Inl e\<close> for \<open>(nil, e)\<close>.
\<close>

definition setVars ::
  "'w api \<Rightarrow> Config \<Rightarrow> bool \<Rightarrow> 'w state \<Rightarrow> (string + envvar list) \<times> 'w state" where
  "setVars A cfg native s =
     (case setVars_register A 0 (setVars_vars A cfg native (world s)) s of
        (Some e, vars, s') \<Rightarrow> (Inl e, s')
      | (None, vars, s') \<Rightarrow> (Inr vars, s'))"

subsection \<open>\<open>run\<close>\<close>

text \<open>
  \<open>strings.EqualFold\<close>, on the bytes of the strings, folding the ASCII letters. Go
  folds by Unicode simple case folding; \<open>run\<close> compares with \<open>cygwin\<close> only, whose
  six letters have no fold partner outside ASCII, so on that comparison the two agree.
\<close>

definition foldASCII :: "char \<Rightarrow> char" where
  "foldASCII c =
     (case map_of (zip ''ABCDEFGHIJKLMNOPQRSTUVWXYZ'' ''abcdefghijklmnopqrstuvwxyz'') c of
        None \<Rightarrow> c
      | Some l \<Rightarrow> l)"

definition EqualFold :: "string \<Rightarrow> string \<Rightarrow> bool" where
  "EqualFold s t = (map foldASCII s = map foldASCII t)"

text \<open>
  \<open>onReady\<close> and \<open>onExit\<close>. Of \<open>onReady\<close> the log line is kept: the tray menu and the
  goroutine that serves its clicks are outside the model. \<open>clipCancel()\<close> is recorded
  as an event.
\<close>

definition onReady :: "'w state \<Rightarrow> 'w state" where
  "onReady s = log_Print ''Entering systray'' s"

definition onExit :: "'w api \<Rightarrow> 'w state \<Rightarrow> 'w state" where
  "onExit A s =
     (case call EvStop (Stop A) (emit EvClipCancel s) of
        (Some m, s') \<Rightarrow>
          log_Print ''Exiting systray'' (log_Print (''Problem stopping gpg agent: '' @ m) s')
      | (None, s') \<Rightarrow> log_Print ''Exiting systray'' s')"

text \<open>
  Modelled from the spec: \<open>systray.Run(onReady, onExit, onSession)\<close> (package
  \<open>systray\<close> is not among the sources). The session notifications are messages
  delivered one by one to \<open>onSession\<close>; the loop calls \<open>onReady\<close> first and \<open>onExit\<close>
  when the exit is requested, here after the events \<open>evs\<close>.
\<close>

definition systray_Run :: "'w api \<Rightarrow> SessionEvent list \<Rightarrow> 'w state \<Rightarrow> 'w state" where
  "systray_Run A evs s = onExit A (fold (onSession A) evs (onReady s))"

text \<open>
  A \<open>defer\<close> statement pushes a call; the calls run when \<open>run\<close> returns, the last
  pushed first. The deferred cleaner carries the slice it closes over.
\<close>

datatype deferred = DeferClose ConnectorType | DeferCleaner "envvar list"

fun run_deferred :: "'w api \<Rightarrow> deferred \<Rightarrow> 'w state \<Rightarrow> 'w state" where
  "run_deferred A (DeferClose k) s = call0 (EvClose k) (Close A k) s"
| "run_deferred A (DeferCleaner vars) s = snd (cleaner A vars s)"

text \<open>The stack of deferred calls has the last pushed at its head.\<close>

definition run_defers :: "'w api \<Rightarrow> deferred list \<Rightarrow> 'w state \<Rightarrow> 'w state" where
  "run_defers A ds s = fold (run_deferred A) ds s"

type_synonym 'w frame = "'w state \<times> deferred list"

text \<open>
  \<open>if err := gpgAgent.Serve(k); err != nil { return err }; defer gpgAgent.Close(k)\<close>
\<close>

definition serve_defer :: "'w api \<Rightarrow> ConnectorType \<Rightarrow> 'w frame \<Rightarrow> error \<times> 'w frame" where
  "serve_defer A k f =
     (case f of (s, ds) \<Rightarrow>
        (case call (EvServe k) (Serve A k) s of
           (Some e, s') \<Rightarrow> (Some e, s', ds)
         | (None, s') \<Rightarrow> (None, s', DeferClose k # ds)))"

text \<open>A statement that may return an error, followed by the rest of the function.\<close>

definition and_then ::
  "error \<times> 'w frame \<Rightarrow> ('w frame \<Rightarrow> error \<times> 'w frame) \<Rightarrow> error \<times> 'w frame" where
  "and_then r rest = (case r of (Some e, f) \<Rightarrow> (Some e, f) | (None, f) \<Rightarrow> rest f)"

text \<open>The block \<open>if gpgAgent.Cfg.GUI.ExtraPort != 0\<close>.\<close>

definition run_extra_port :: "'w api \<Rightarrow> Config \<Rightarrow> 'w frame \<Rightarrow> error \<times> 'w frame" where
  "run_extra_port A cfg f =
     (if GUI_ExtraPort cfg \<noteq> 0 then serve_defer A ConnectorExtraPort f else (None, f))"

text \<open>The block \<open>if gpgAgent.Cfg.GUI.SetEnv\<close>.\<close>

definition run_setenv :: "'w api \<Rightarrow> Config \<Rightarrow> 'w frame \<Rightarrow> error \<times> 'w frame" where
  "run_setenv A cfg f =
     (case f of (s, ds) \<Rightarrow>
        if GUI_SetEnv cfg then
          (case setVars A cfg (\<not> EqualFold (GUI_SSH cfg) ''cygwin'') s of
             (Inl e, s') \<Rightarrow> (Some e, s', ds)
           | (Inr vars, s') \<Rightarrow> (None, s', DeferCleaner vars # ds))
        else (None, s, ds))"

text \<open>\<open>gpgAgent.Start()\<close>, then \<open>systray.Run\<close> and \<open>return nil\<close>.\<close>

definition run_start :: "'w api \<Rightarrow> SessionEvent list \<Rightarrow> 'w frame \<Rightarrow> error \<times> 'w frame" where
  "run_start A evs f =
     (case f of (s, ds) \<Rightarrow>
        (case call EvStart (Start A) s of
           (Some e, s') \<Rightarrow> (Some e, s', ds)
         | (None, s') \<Rightarrow> (None, systray_Run A evs s', ds)))"

text \<open>The statements of \<open>run\<close> in their order, up to its \<open>return\<close>.\<close>

definition run_body :: "'w api \<Rightarrow> Config \<Rightarrow> SessionEvent list \<Rightarrow> 'w state \<Rightarrow> error \<times> 'w frame" where
  "run_body A cfg evs s =
     and_then (serve_defer A ConnectorSockAgentCygwinSSH (s, [])) (\<lambda>f.
     and_then (serve_defer A ConnectorPipeSSH f) (\<lambda>f.
     and_then (serve_defer A ConnectorSockAgentSSH f) (\<lambda>f.
     and_then (run_extra_port A cfg f) (\<lambda>f.
     and_then (serve_defer A ConnectorSockAgent f) (\<lambda>f.
     and_then (serve_defer A ConnectorSockAgentExtra f) (\<lambda>f.
     and_then (run_setenv A cfg f) (\<lambda>f.
     run_start A evs f)))))))"

text \<open>\<open>run\<close>: the body, then the deferred calls; the error and the final state.\<close>

definition run :: "'w api \<Rightarrow> Config \<Rightarrow> SessionEvent list \<Rightarrow> 'w state \<Rightarrow> error \<times> 'w state" where
  "run A cfg evs s = (case run_body A cfg evs s of (e, s', ds) \<Rightarrow> (e, run_defers A ds s'))"

subsection \<open>\<open>clipServe\<close>\<close>

text \<open>\<open>encoding/hex\<close>: the reverse table, \<open>Decode\<close> on the bytes of the string.\<close>

definition reverseHexTable :: "char \<Rightarrow> byte" where
  "reverseHexTable c =
     (let n = (of_char c :: nat) in
      if 48 \<le> n \<and> n \<le> 57 then of_nat (n - 48)
      else if 65 \<le> n \<and> n \<le> 70 then of_nat (n - 55)
      else if 97 \<le> n \<and> n \<le> 102 then of_nat (n - 87)
      else 0xff)"

datatype hexerr = InvalidByteError char | ErrLength

fun hex_DecodeString :: "string \<Rightarrow> hexerr + byte list" where
  "hex_DecodeString (p # q # rest) =
     (let a = reverseHexTable p; b = reverseHexTable q in
      if a > 0x0f then Inl (InvalidByteError p)
      else if b > 0x0f then Inl (InvalidByteError q)
      else (case hex_DecodeString rest of
              Inl e \<Rightarrow> Inl e
            | Inr bs \<Rightarrow> Inr ((push_bit 4 a OR b) # bs)))"
| "hex_DecodeString [p] =
     (if reverseHexTable p > 0x0f then Inl (InvalidByteError p) else Inl ErrLength)"
| "hex_DecodeString [] = Inr []"

definition hextable :: string where "hextable = ''0123456789abcdef''"

fun hex_EncodeToString :: "byte list \<Rightarrow> string" where
  "hex_EncodeToString [] = []"
| "hex_EncodeToString (b # bs) =
     hextable ! unat (drop_bit 4 b) # hextable ! unat (b AND 0x0f) # hex_EncodeToString bs"

text \<open>The verb \<open>%d\<close> of \<open>fmt\<close>: the decimal digits of an integer.\<close>

function digits :: "nat \<Rightarrow> string" where
  "digits n = (if n < 10 then [char_of (48 + n)] else digits (n div 10) @ [char_of (48 + n mod 10)])"
  by pat_completeness auto
termination
  by (relation "measure id") auto

declare digits.simps [simp del]

definition fmt_d :: "int \<Rightarrow> string" where
  "fmt_d i = (if i < 0 then CHR ''-'' # digits (nat (- i)) else digits (nat i))"

definition bad_key_msg :: "nat \<Rightarrow> string" where
  "bad_key_msg i = ''Bad gclpr public key '' @ fmt_d (int i) @ ''. Ignoring''"

definition found_key_msg :: "string \<Rightarrow> byte list \<Rightarrow> string" where
  "found_key_msg k hpk =
     ''gclpr found public key: '' @ k @ '' ['' @ hex_EncodeToString hpk @ '']''"

definition serving_msg :: "nat \<Rightarrow> int \<Rightarrow> string" where
  "serving_msg n port =
     ''---------------------------'' @ [CHR 0x0A] @ ''gclpr is serving '' @ fmt_d (int n)
       @ '' key(s) on port '' @ fmt_d port"

definition compatibleMagic :: "byte list" where
  "compatibleMagic = [0x67, 0x63, 0x6c, 0x70, 0x72, 1, 1, 0]"

text \<open>
  \<open>pkeys\<close>, a map from the hash of a key to the key, as an association list with one
  pair for each hash: \<open>len(pkeys)\<close> is its length.
\<close>

type_synonym pkeys = "(byte list \<times> byte list) list"

text \<open>
  The loop \<open>for i, k := range cfg.GUI.Clp.Keys\<close>, from index \<open>i\<close>. \<open>Sum256\<close> is
  \<open>sha256.Sum256\<close>, a parameter. A key that passes the test has 32 bytes, which
  \<open>copy\<close> moves to \<open>pkey\<close> whole.
\<close>

fun clip_keys ::
  "(byte list \<Rightarrow> byte list) \<Rightarrow> nat \<Rightarrow> string list \<Rightarrow> pkeys \<Rightarrow> 'w state \<Rightarrow> pkeys \<times> 'w state" where
  "clip_keys Sum256 i [] pkeys s = (pkeys, s)"
| "clip_keys Sum256 i (k # ks) pkeys s =
     (case hex_DecodeString k of
        Inl err \<Rightarrow> clip_keys Sum256 (Suc i) ks pkeys (log_Print (bad_key_msg i) s)
      | Inr pk \<Rightarrow>
          if length pk \<noteq> 32
          then clip_keys Sum256 (Suc i) ks pkeys (log_Print (bad_key_msg i) s)
          else clip_keys Sum256 (Suc i) ks (AList.update (Sum256 pk) pk pkeys)
                 (log_Print (found_key_msg k (Sum256 pk)) s))"

text \<open>
  \<open>clipServe\<close>. The server runs in a goroutine of its own: the model records that it
  is started, with the arguments of \<open>clip.Serve\<close>, and not what it does later. The
  context and its cancel function are not part of the state.
\<close>

definition clipServe :: "(byte list \<Rightarrow> byte list) \<Rightarrow> Config \<Rightarrow> 'w state \<Rightarrow> 'w state" where
  "clipServe Sum256 cfg s =
     (if length (GUI_Clp_Keys cfg) > 0 then
        (case clip_keys Sum256 0 (GUI_Clp_Keys cfg) [] s of
           (pkeys, s') \<Rightarrow>
             if length pkeys > 0 then
               emit (EvClipServe (GUI_Clp_Port cfg) (GUI_Clp_LE cfg) pkeys compatibleMagic)
                 (s'\<lparr>clipHelp := serving_msg (length pkeys) (GUI_Clp_Port cfg)\<rparr>)
             else s')
      else s)"

section \<open>Observations on a run\<close>

text \<open>The events a function appended: the trace after it, without the trace before.\<close>

definition new_events :: "'w state \<Rightarrow> 'w state \<Rightarrow> event list" where
  "new_events s s' = drop (length (trace s)) (trace s')"

fun is_log :: "event \<Rightarrow> bool" where
  "is_log (EvLog m) = True"
| "is_log e = False"

text \<open>The calls of a trace: everything but the log lines.\<close>

definition calls :: "event list \<Rightarrow> event list" where
  "calls tr = filter (\<lambda>e. \<not> is_log e) tr"

fun serves :: "event list \<Rightarrow> ConnectorType list" where
  "serves [] = []"
| "serves (EvServe k # tr) = k # serves tr"
| "serves (e # tr) = serves tr"

fun closes :: "event list \<Rightarrow> ConnectorType list" where
  "closes [] = []"
| "closes (EvClose k # tr) = k # closes tr"
| "closes (e # tr) = closes tr"

fun is_teardown :: "event \<Rightarrow> bool" where
  "is_teardown (EvClose k) = True"
| "is_teardown (EvClean n r) = True"
| "is_teardown e = False"

text \<open>The removals and the closes of a trace, in their order.\<close>

definition teardown :: "event list \<Rightarrow> event list" where
  "teardown tr = filter is_teardown tr"

fun is_clip_serve :: "event \<Rightarrow> bool" where
  "is_clip_serve (EvClipServe p l ks m) = True"
| "is_clip_serve e = False"

definition clean_event :: "envvar \<Rightarrow> event" where
  "clean_event v = EvClean (name v) (register v)"

definition prepare_event :: "envvar \<Rightarrow> event" where
  "prepare_event v = EvPrepare (name v) (val v) (register v) (translate v)"

definition reset :: "envvar \<Rightarrow> envvar" where
  "reset v = v\<lparr>initialized := False\<rparr>"

definition mark :: "envvar \<Rightarrow> envvar" where
  "mark v = v\<lparr>initialized := True\<rparr>"

text \<open>The state after the entries \<open>vs\<close> were applied in their order.\<close>

definition applied :: "'w api \<Rightarrow> envvar list \<Rightarrow> 'w state \<Rightarrow> 'w state" where
  "applied A vs s = fold (\<lambda>v s. snd (call_Prepare A v s)) vs s"

text \<open>A log line of \<open>cleaner\<close> on a failed removal of the variable \<open>n\<close>.\<close>

fun removal_logged :: "string \<Rightarrow> event \<Rightarrow> bool" where
  "removal_logged n (EvLog t) =
     prefix (''Unable to delete '' @ n @ '' from user environment: '') t"
| "removal_logged n e = False"

definition removal_failed :: "string \<Rightarrow> event list \<Rightarrow> bool" where
  "removal_failed n tr = (filter (removal_logged n) tr \<noteq> [])"

text \<open>
  The connectors \<open>run\<close> is to serve, in the words of the specification: the fixed
  order, the extra port only when it is not zero.
\<close>

definition enabled_connectors :: "Config \<Rightarrow> ConnectorType list" where
  "enabled_connectors cfg =
     [ConnectorSockAgentCygwinSSH, ConnectorPipeSSH, ConnectorSockAgentSSH]
     @ (if GUI_ExtraPort cfg \<noteq> 0 then [ConnectorExtraPort] else [])
     @ [ConnectorSockAgent, ConnectorSockAgentExtra]"

text \<open>
  Serving a list of connectors in the words of the specification: each in its turn,
  stopping at the first error. It returns the error, the connectors \<open>Serve\<close> was
  called on, and the state.
\<close>

fun serve_in_order ::
  "'w api \<Rightarrow> ConnectorType list \<Rightarrow> 'w state \<Rightarrow> error \<times> ConnectorType list \<times> 'w state" where
  "serve_in_order A [] s = (None, [], s)"
| "serve_in_order A (k # ks) s =
     (case call (EvServe k) (Serve A k) s of
        (Some e, s') \<Rightarrow> (Some e, [k], s')
      | (None, s') \<Rightarrow>
          (case serve_in_order A ks s' of (r, called, s'') \<Rightarrow> (r, k # called, s'')))"

text \<open>A configured key that \<open>clipServe\<close> keeps: it decodes, to 32 bytes.\<close>

definition valid_key :: "string \<Rightarrow> bool" where
  "valid_key k = (case hex_DecodeString k of Inl e \<Rightarrow> False | Inr pk \<Rightarrow> length pk = 32)"

definition decoded :: "string \<Rightarrow> byte list" where
  "decoded k = (case hex_DecodeString k of Inl e \<Rightarrow> [] | Inr pk \<Rightarrow> pk)"

text \<open>The log line of \<open>clipServe\<close> for the key \<open>k\<close> at index \<open>i\<close>.\<close>

definition key_log :: "(byte list \<Rightarrow> byte list) \<Rightarrow> nat \<times> string \<Rightarrow> event" where
  "key_log Sum256 ik =
     (case ik of (i, k) \<Rightarrow>
        if valid_key k then EvLog (found_key_msg k (Sum256 (decoded k)))
        else EvLog (bad_key_msg i))"

definition add_key :: "(byte list \<Rightarrow> byte list) \<Rightarrow> string \<Rightarrow> pkeys \<Rightarrow> pkeys" where
  "add_key Sum256 k pkeys = AList.update (Sum256 (decoded k)) (decoded k) pkeys"

text \<open>The value and the flags of every write of the variable \<open>n\<close>, in their order.\<close>

fun prepared_as :: "string \<Rightarrow> event list \<Rightarrow> (string \<times> bool \<times> bool) list" where
  "prepared_as n [] = []"
| "prepared_as n (EvPrepare n' v r t # tr) =
     (if n' = n then (v, r, t) # prepared_as n tr else prepared_as n tr)"
| "prepared_as n (e # tr) = prepared_as n tr"

text \<open>The removals and closes a deferred call makes.\<close>

fun deferred_teardown :: "deferred \<Rightarrow> event list" where
  "deferred_teardown (DeferClose k) = [EvClose k]"
| "deferred_teardown (DeferCleaner vars) = map clean_event (rev (filter initialized vars))"

text \<open>Events that are neither a serve, nor a close, nor a call on the environment.\<close>

fun is_other :: "event \<Rightarrow> bool" where
  "is_other (EvServe k) = False"
| "is_other (EvClose k) = False"
| "is_other (EvPrepare n v r t) = False"
| "is_other (EvClean n r) = False"
| "is_other e = True"

text \<open>The first entry of \<open>vars\<close> as \<open>setVars\<close> leaves it before the loops.\<close>

definition ssh_entry :: "'w api \<Rightarrow> Config \<Rightarrow> bool \<Rightarrow> 'w \<Rightarrow> envvar" where
  "ssh_entry A cfg native w =
     \<lparr>initialized = False, name = envPipeName,
      val = (if native then GUI_PipeName cfg else PathGUI A ConnectorSockAgentCygwinSSH w),
      register = False, translate = False\<rparr>"

text \<open>The serve statements of \<open>run\<close> for a list of connectors, one after the other.\<close>

fun serve_chain :: "'w api \<Rightarrow> ConnectorType list \<Rightarrow> 'w frame \<Rightarrow> error \<times> 'w frame" where
  "serve_chain A [] f = (None, f)"
| "serve_chain A (k # ks) f = and_then (serve_defer A k f) (serve_chain A ks)"

text \<open>An entry \<open>cleaner\<close> and the loop may handle without a persistent write of \<open>n\<close>.\<close>

definition spares :: "string \<Rightarrow> envvar \<Rightarrow> bool" where
  "spares n v = (name v \<noteq> n \<or> \<not> register v)"

section \<open>A simulated outside world\<close>

text \<open>
  Modelled from the spec: the agent of package \<open>agent\<close> and the environment store
  behind \<open>util.PrepareUserEnvironmentVariable\<close> and
  \<open>util.CleanUserEnvironmentVariable\<close> (neither package is among the sources).
  A variable is written to the process-scoped store and, when its persistence flag
  is set, to the persistent user-scoped store; a removal deletes it from the stores
  it was written to. A call that fails leaves the stores as they are. Which calls
  fail is chosen by three lists: the connectors that do not bind, the variables that
  cannot be written, the variables that cannot be removed. The translation of a
  path is outside this world. It serves as a concrete instance of the parameters.
\<close>

record sim =
  process_env :: "(string \<times> string) list"
  user_env :: "(string \<times> string) list"
  listening :: "ConnectorType list"
  locked :: bool
  running :: bool


definition sim_Prepare ::
  "string list \<Rightarrow> string \<Rightarrow> string \<Rightarrow> bool \<Rightarrow> bool \<Rightarrow> sim \<Rightarrow> error \<times> sim" where
  "sim_Prepare bad n v reg tr w =
     (if n \<in> set bad then (Some ''access denied'', w)
      else (None, w\<lparr>process_env := AList.update n v (process_env w),
                     user_env := (if reg then AList.update n v (user_env w) else user_env w)\<rparr>))"

definition sim_Clean :: "string list \<Rightarrow> string \<Rightarrow> bool \<Rightarrow> sim \<Rightarrow> error \<times> sim" where
  "sim_Clean bad n reg w =
     (if n \<in> set bad then (Some ''access denied'', w)
      else (None, w\<lparr>process_env := AList.delete n (process_env w),
                     user_env := (if reg then AList.delete n (user_env w) else user_env w)\<rparr>))"

definition sim_Serve :: "ConnectorType list \<Rightarrow> ConnectorType \<Rightarrow> sim \<Rightarrow> error \<times> sim" where
  "sim_Serve bad k w =
     (if k \<in> set bad then (Some ''address in use'', w)
      else (None, w\<lparr>listening := k # removeAll k (listening w)\<rparr>))"

definition sim_api :: "ConnectorType list \<Rightarrow> string list \<Rightarrow> string list \<Rightarrow> sim api" where
  "sim_api bad_serve bad_prepare bad_clean =
     \<lparr>Serve = sim_Serve bad_serve,
      Close = (\<lambda>k w. w\<lparr>listening := removeAll k (listening w)\<rparr>),
      Start = (\<lambda>w. (None, w\<lparr>running := True\<rparr>)),
      Stop = (\<lambda>w. (None, w\<lparr>running := False\<rparr>)),
      SessionLock = (\<lambda>w. w\<lparr>locked := True\<rparr>),
      SessionUnlock = (\<lambda>w. w\<lparr>locked := False\<rparr>),
      PathGUI = (\<lambda>k w. ''S.gpg-agent.ssh.cyg''),
      PrepareUserEnvironmentVariable = sim_Prepare bad_prepare,
      CleanUserEnvironmentVariable = sim_Clean bad_clean,
      PrepareWindowsPath = (\<lambda>p. p)\<rparr>"

definition sim_empty :: sim where
  "sim_empty = \<lparr>process_env = [], user_env = [], listening = [], locked = False,
                running = False\<rparr>"

definition sim_init :: "sim \<Rightarrow> sim state" where
  "sim_init w = \<lparr>world = w, trace = [], clipHelp = []\<rparr>"


definition sim_cfg :: Config where
  "sim_cfg = \<lparr>GUI_PipeName = ''openssh-ssh-agent'', GUI_Home = ''gui'', GUI_ExtraPort = 0,
     GUI_SetEnv = True, GUI_SSH = ''Cygwin'', GUI_Clp_Keys = [], GUI_Clp_Port = 2850,
     GUI_Clp_LE = [], GPG_Home = ''gnupg''\<rparr>"




text \<open>Two more configurations: an extra port, and the native mode.\<close>

definition sim_cfg_port :: Config where
  "sim_cfg_port = sim_cfg\<lparr>GUI_ExtraPort := 4321\<rparr>"

definition sim_cfg_native :: Config where
  "sim_cfg_native = sim_cfg\<lparr>GUI_SSH := ''native''\<rparr>"

text \<open>A world where an earlier version left \<open>SSH_AUTH_SOCK\<close> in the user store.\<close>

definition sim_old_sock :: sim where
  "sim_old_sock = sim_empty\<lparr>user_env := [(''SSH_AUTH_SOCK'', ''old'')]\<rparr>"

definition user_sock :: "sim \<Rightarrow> string option" where
  "user_sock w = map_of (user_env w) ''SSH_AUTH_SOCK''"

text \<open>
  Configured keys for the clipboard service: one of 32 bytes among three bad ones, and
  the bad ones alone; a stand-in for the hash.
\<close>

definition clip_cfg :: Config where
  "clip_cfg = sim_cfg\<lparr>GUI_Clp_Keys :=
     [''zz'', ''0a0b'',
      ''000102030405060708090a0b0c0d0e0f101112131415161718191A1B1C1D1E1F'',
      ''abc'']\<rparr>"

definition clip_bad_cfg :: Config where
  "clip_bad_cfg = sim_cfg\<lparr>GUI_Clp_Keys := [''zz'', ''0a0b'', ''abc'']\<rparr>"

definition toy_hash :: "byte list \<Rightarrow> byte list" where
  "toy_hash bs = rev bs"

section \<open>Properties\<close>

subsection \<open>Session events\<close>


text \<open>
  C8. For every session event delivered to \<open>onSession\<close>: a lock event makes exactly
  one call, \<open>SessionLock\<close>; an unlock event exactly one call, \<open>SessionUnlock\<close>; an
  event of any other kind makes no call and leaves the whole state, the lock state
  of the agent included, as it was.
\<close>

theorem onSession_dispatch:
  "onSession A SesLock s = s\<lparr>world := SessionLock A (world s), trace := trace s @ [EvSessionLock]\<rparr>
   \<and> onSession A SesUnlock s =
       s\<lparr>world := SessionUnlock A (world s), trace := trace s @ [EvSessionUnlock]\<rparr>
   \<and> onSession A (SesOther n) s = s"
  by (simp add: call0_def emit_def)

subsection \<open>The cleaner\<close>

lemma cleaner_loop_eq:
  "n \<le> length vars \<Longrightarrow>
   cleaner_loop A n vars s =
     (map reset (take n vars) @ drop n vars,
      fold (clean_one A) (rev (filter initialized (take n vars))) s)"
proof (induction n arbitrary: vars s)
  case 0
  then show ?case by simp
next
  case (Suc n)
  then have n: "n < length vars" by simp
  have split: "take (Suc n) vars = take n vars @ [vars ! n]"
    using n by (simp add: take_Suc_conv_app_nth)
  have dr: "drop n vars = vars ! n # drop (Suc n) vars"
    using n by (simp add: Cons_nth_drop_Suc)
  show ?case
  proof (cases "initialized (vars ! n)")
    case True
    have "cleaner_loop A (Suc n) vars s =
          cleaner_loop A n (vars[n := reset (vars ! n)]) (clean_one A (vars ! n) s)"
      using True by (simp add: reset_def)
    also have "\<dots> = (map reset (take n vars) @ drop n (vars[n := reset (vars ! n)]),
                     fold (clean_one A) (rev (filter initialized (take n vars)))
                       (clean_one A (vars ! n) s))"
      using n by (subst Suc.IH) simp_all
    finally show ?thesis
      using True n by (simp add: split upd_conv_take_nth_drop)
  next
    case False
    then have r: "reset (vars ! n) = vars ! n" by (simp add: reset_def)
    from False have "cleaner_loop A (Suc n) vars s = cleaner_loop A n vars s" by simp
    also have "\<dots> = (map reset (take n vars) @ drop n vars,
                     fold (clean_one A) (rev (filter initialized (take n vars))) s)"
      using n by (subst Suc.IH) simp_all
    finally show ?thesis
      using False by (simp add: split dr r)
  qed
qed

lemma cleaner_eq:
  "cleaner A vars s = (map reset vars, fold (clean_one A) (rev (filter initialized vars)) s)"
  by (simp add: cleaner_def cleaner_loop_eq)









subsection \<open>The registration loop\<close>

lemma applied_Cons: "applied A (v # vs) s = applied A vs (snd (call_Prepare A v s))"
  by (simp add: applied_def)

lemma register_fails:
  "setVars_register A (length pre) (pre @ todo) s = (Some e, vars', s') \<Longrightarrow>
   \<exists>k m. k < length todo
     \<and> (\<forall>j<k. fst (call_Prepare A (todo ! j) (applied A (take j todo) s)) = None)
     \<and> fst (call_Prepare A (todo ! k) (applied A (take k todo) s)) = Some m
     \<and> e = add_error (name (todo ! k)) m
     \<and> (vars', s') =
         cleaner A (pre @ map mark (take k todo) @ drop k todo)
           (snd (call_Prepare A (todo ! k) (applied A (take k todo) s)))"
proof (induction todo arbitrary: pre s)
  case Nil
  then show ?case by (simp add: setVars_register.simps)
next
  case (Cons v vs)
  obtain r s1 where c: "call_Prepare A v s = (r, s1)" by (cases "call_Prepare A v s")
  show ?case
  proof (cases r)
    case (Some m)
    with Cons.prems c have "e = add_error (name v) m"
      and "(vars', s') = cleaner A (pre @ v # vs) s1"
      by (auto simp: setVars_register.simps split: prod.splits)
    with c Some show ?thesis
      by (intro exI [of _ 0] exI [of _ m]) (simp add: applied_def)
  next
    case None
    have upd: "(pre @ v # vs)[length pre := mark v] = (pre @ [mark v]) @ vs"
      by simp
    from Cons.prems c None
    have "setVars_register A (length (pre @ [mark v])) ((pre @ [mark v]) @ vs) s1 = (Some e, vars', s')"
      by (subst (asm) setVars_register.simps) (simp add: mark_def)
    from Cons.IH [OF this] obtain k m where k: "k < length vs"
      and ok: "\<forall>j<k. fst (call_Prepare A (vs ! j) (applied A (take j vs) s1)) = None"
      and bad: "fst (call_Prepare A (vs ! k) (applied A (take k vs) s1)) = Some m"
      and e: "e = add_error (name (vs ! k)) m"
      and res: "(vars', s') = cleaner A ((pre @ [mark v]) @ map mark (take k vs) @ drop k vs)
           (snd (call_Prepare A (vs ! k) (applied A (take k vs) s1)))"
      by blast
    have s1: "s1 = snd (call_Prepare A v s)" using c by simp
    have ok': "\<forall>j<Suc k. fst (call_Prepare A ((v # vs) ! j) (applied A (take j (v # vs)) s)) = None"
    proof (intro allI impI)
      fix j assume "j < Suc k"
      then show "fst (call_Prepare A ((v # vs) ! j) (applied A (take j (v # vs)) s)) = None"
        using ok c None by (cases j) (simp_all add: applied_Cons s1 [symmetric], simp add: applied_def)
    qed
    show ?thesis
      using k ok' bad e res
      by (intro exI [of _ "Suc k"] exI [of _ m]) (simp add: applied_Cons s1 [symmetric])
  qed
qed

lemma register_succeeds:
  "setVars_register A (length pre) (pre @ todo) s = (None, vars', s') \<Longrightarrow>
   vars' = pre @ map mark todo \<and> s' = applied A todo s
   \<and> (\<forall>j<length todo. fst (call_Prepare A (todo ! j) (applied A (take j todo) s)) = None)"
proof (induction todo arbitrary: pre s)
  case Nil
  then show ?case by (simp add: setVars_register.simps applied_def)
next
  case (Cons v vs)
  obtain r s1 where c: "call_Prepare A v s = (r, s1)" by (cases "call_Prepare A v s")
  show ?case
  proof (cases r)
    case (Some m)
    with Cons.prems c show ?thesis
      by (auto simp: setVars_register.simps split: prod.splits)
  next
    case None
    from Cons.prems c None
    have "setVars_register A (length (pre @ [mark v])) ((pre @ [mark v]) @ vs) s1 = (None, vars', s')"
      by (subst (asm) setVars_register.simps) (simp add: mark_def)
    from Cons.IH [OF this] have v: "vars' = (pre @ [mark v]) @ map mark vs"
      and s: "s' = applied A vs s1"
      and ok: "\<forall>j<length vs. fst (call_Prepare A (vs ! j) (applied A (take j vs) s1)) = None"
      by blast+
    have s1: "s1 = snd (call_Prepare A v s)" using c by simp
    have "\<forall>j<length (v # vs). fst (call_Prepare A ((v # vs) ! j) (applied A (take j (v # vs)) s)) = None"
    proof (intro allI impI)
      fix j assume "j < length (v # vs)"
      then show "fst (call_Prepare A ((v # vs) ! j) (applied A (take j (v # vs)) s)) = None"
        using ok c None by (cases j) (simp_all add: applied_Cons s1 [symmetric], simp add: applied_def)
    qed
    then show ?thesis using v s by (simp add: applied_Cons s1 [symmetric])
  qed
qed


lemma trace_call_Prepare: "trace (snd (call_Prepare A v s)) = trace s @ [prepare_event v]"
  by (simp add: call_Prepare_def call_def emit_def prepare_event_def split: prod.splits)

lemma trace_applied: "trace (applied A vs s) = trace s @ map prepare_event vs"
  by (induction vs arbitrary: s) (simp_all add: applied_def trace_call_Prepare)

lemma calls_prepare_events: "calls (map prepare_event vs) = map prepare_event vs"
  by (induction vs) (simp_all add: calls_def prepare_event_def)


lemma clean_one_mark: "clean_one A (mark v) = clean_one A v"
  by (rule ext) (simp add: clean_one_def call_Clean_def mark_def split: prod.splits option.splits)

lemma fold_clean_mark: "fold (clean_one A) (map mark vs) = fold (clean_one A) vs"
  by (simp add: fold_map comp_def clean_one_mark)


lemma removal_failed_prepare: "\<not> removal_failed n (map prepare_event vs)"
  by (induction vs) (simp_all add: removal_failed_def prepare_event_def)

lemma clean_one_cases:
  obtains (ok) "fst (CleanUserEnvironmentVariable A (name v) (register v) (world s)) = None"
      "trace (clean_one A v s) = trace s @ [clean_event v]"
      "world (clean_one A v s) = snd (CleanUserEnvironmentVariable A (name v) (register v) (world s))"
  | (failed) m where
      "trace (clean_one A v s) = trace s @ [clean_event v,
         EvLog (''Unable to delete '' @ name v @ '' from user environment: '' @ m)]"
      "world (clean_one A v s) = snd (CleanUserEnvironmentVariable A (name v) (register v) (world s))"
proof (cases "fst (CleanUserEnvironmentVariable A (name v) (register v) (world s))")
  case None
  then show ?thesis
    by (intro ok) (auto simp: clean_one_def call_Clean_def call_def emit_def clean_event_def
        split: prod.splits)
next
  case (Some m)
  then show ?thesis
    by (intro failed [of m])
       (auto simp: clean_one_def call_Clean_def call_def emit_def clean_event_def log_Print_def
        split: prod.splits)
qed


lemma filter_initialized_marked:
  "\<forall>v\<in>set ys. \<not> initialized v \<Longrightarrow> filter initialized (map mark xs @ ys) = map mark xs"
  by (induction xs) (simp_all add: mark_def)

lemma reset_marked:
  assumes a: "\<forall>v\<in>set vars. \<not> initialized v"
  shows "map reset (map mark (take k vars) @ drop k vars) = vars"
proof -
  have r: "\<And>v. v \<in> set vars \<Longrightarrow> reset (mark v) = v \<and> reset v = v"
    using a by (simp add: reset_def mark_def)
  have "map (\<lambda>v. reset (mark v)) (take k vars) = take k vars"
    by (rule map_idI) (auto dest: in_set_takeD simp: r)
  moreover have "map reset (drop k vars) = drop k vars"
    by (rule map_idI) (auto dest: in_set_dropD simp: r)
  ultimately show ?thesis by (simp add: comp_def)
qed





subsection \<open>The trace of \<open>run\<close>\<close>

lemma serves_append: "serves (X @ Y) = serves X @ serves Y"
  by (induction X rule: serves.induct) simp_all

lemma closes_append: "closes (X @ Y) = closes X @ closes Y"
  by (induction X rule: closes.induct) simp_all

lemma prepared_as_append: "prepared_as n (X @ Y) = prepared_as n X @ prepared_as n Y"
  by (induction n X rule: prepared_as.induct) simp_all

lemma teardown_append: "teardown (X @ Y) = teardown X @ teardown Y"
  by (simp add: teardown_def)

lemma others_project:
  "list_all is_other X \<Longrightarrow>
   serves X = [] \<and> closes X = [] \<and> teardown X = [] \<and> prepared_as n X = []"
proof (induction X)
  case Nil
  then show ?case by (simp add: teardown_def)
next
  case (Cons e X)
  then show ?case by (cases e) (simp_all add: teardown_def)
qed

lemma serves_map_EvServe: "serves (map EvServe ks) = ks"
  by (induction ks) simp_all

lemma project_map_EvServe:
  "closes (map EvServe ks) = [] \<and> teardown (map EvServe ks) = []
   \<and> prepared_as n (map EvServe ks) = []"
  by (induction ks) (simp_all add: teardown_def)

lemma project_map_EvClose:
  "closes (map EvClose ks) = ks \<and> teardown (map EvClose ks) = map EvClose ks
   \<and> prepared_as n (map EvClose ks) = [] \<and> serves (map EvClose ks) = []"
  by (induction ks) (simp_all add: teardown_def)

lemma project_prepares:
  "serves (map prepare_event vs) = [] \<and> closes (map prepare_event vs) = []
   \<and> teardown (map prepare_event vs) = []"
  by (induction vs) (simp_all add: teardown_def prepare_event_def)

lemma project_cleans:
  "serves (map clean_event vs) = [] \<and> closes (map clean_event vs) = []
   \<and> teardown (map clean_event vs) = map clean_event vs
   \<and> prepared_as n (map clean_event vs) = []"
  by (induction vs) (simp_all add: teardown_def clean_event_def)

lemma prepared_as_absent:
  "n \<notin> name ` set vs \<Longrightarrow> prepared_as n (map prepare_event vs) = []"
  by (induction vs) (auto simp: prepare_event_def)

text \<open>What a trace of removals and log lines projects to.\<close>

lemma fold_clean_trace:
  "\<exists>X. trace (fold (clean_one A) vs s) = trace s @ X
       \<and> serves X = [] \<and> closes X = [] \<and> prepared_as n X = []
       \<and> teardown X = map clean_event vs"
proof (induction vs arbitrary: s)
  case Nil
  then show ?case by (simp add: teardown_def)
next
  case (Cons v vs)
  let ?s1 = "clean_one A v s"
  from Cons.IH [of ?s1] obtain X where X: "trace (fold (clean_one A) vs ?s1) = trace ?s1 @ X"
    and p: "serves X = []" "closes X = []" "prepared_as n X = []"
    and t: "teardown X = map clean_event vs"
    by blast
  obtain L where L: "trace ?s1 = trace s @ clean_event v # L" and o: "list_all is_other L"
    by (cases rule: clean_one_cases [of A v s]) auto
  let ?Y = "clean_event v # L @ X"
  have 1: "trace (fold (clean_one A) (v # vs) s) = trace s @ ?Y"
    using X L by simp
  have 2: "serves ?Y = [] \<and> closes ?Y = [] \<and> prepared_as n ?Y = []
           \<and> teardown ?Y = map clean_event (v # vs)"
    using p t others_project [OF o, of n]
    by (simp add: clean_event_def serves_append closes_append prepared_as_append
        teardown_def)
  from 1 2 show ?case by blast
qed

lemma register_rollback_state:
  assumes fresh: "\<forall>v\<in>set vars. \<not> initialized v"
      and fails: "setVars_register A 0 vars s = (Some e, vars', s')"
  shows "\<exists>k. k < length vars \<and> vars' = vars
       \<and> s' = fold (clean_one A) (rev (take k vars))
                (snd (call_Prepare A (vars ! k) (applied A (take k vars) s)))"
proof -
  from fails have "setVars_register A (length ([] :: envvar list)) ([] @ vars) s = (Some e, vars', s')"
    by simp
  from register_fails [OF this] obtain k m where k: "k < length vars"
    and res: "(vars', s') = cleaner A ([] @ map mark (take k vars) @ drop k vars)
           (snd (call_Prepare A (vars ! k) (applied A (take k vars) s)))"
    by blast
  let ?sk = "snd (call_Prepare A (vars ! k) (applied A (take k vars) s))"
  have dropfresh: "\<forall>v\<in>set (drop k vars). \<not> initialized v"
    using fresh by (meson in_set_dropD)
  have f: "filter initialized (map mark (take k vars) @ drop k vars) = map mark (take k vars)"
    by (rule filter_initialized_marked [OF dropfresh])
  have r: "map reset (map mark (take k vars) @ drop k vars) = vars"
    by (rule reset_marked [OF fresh])
  have "cleaner A (map mark (take k vars) @ drop k vars) ?sk =
        (vars, fold (clean_one A) (rev (map mark (take k vars))) ?sk)"
    by (simp only: cleaner_eq f r)
  also have "\<dots> = (vars, fold (clean_one A) (rev (take k vars)) ?sk)"
    by (simp only: rev_map fold_clean_mark)
  finally have "vars' = vars" and "s' = fold (clean_one A) (rev (take k vars)) ?sk"
    using res by simp_all
  with k show ?thesis by blast
qed

lemma setVars_vars_shape:
  "setVars_vars A cfg native w = ssh_entry A cfg native w # tl (vars_literal A cfg)
   \<and> envPipeName \<notin> name ` set (tl (vars_literal A cfg))
   \<and> (\<forall>v\<in>set (setVars_vars A cfg native w). \<not> initialized v)"
  by (simp add: setVars_vars_def vars_literal_def ssh_entry_def envPipeName_def
      envGPGHomeName_def envGUIHomeName_def)

lemma prepared_as_ssh:
  "prepared_as envPipeName (map prepare_event (take (Suc k) (setVars_vars A cfg native w))) =
     [(val (ssh_entry A cfg native w), False, False)]"
proof -
  let ?rest = "tl (vars_literal A cfg)"
  have "envPipeName \<notin> name ` set (take k ?rest)"
    using setVars_vars_shape [of A cfg native w] by (auto dest: in_set_takeD)
  then have "prepared_as envPipeName (map prepare_event (take k ?rest)) = []"
    by (rule prepared_as_absent)
  then show ?thesis
    using setVars_vars_shape [of A cfg native w]
    by (simp add: prepare_event_def ssh_entry_def)
qed

lemma setVars_trace:
  assumes "setVars A cfg native s = (res, s')"
  shows "\<exists>X. trace s' = trace s @ X \<and> serves X = [] \<and> closes X = []
       \<and> prepared_as envPipeName X = [(val (ssh_entry A cfg native (world s)), False, False)]
       \<and> (\<forall>vars'. res = Inr vars' \<longrightarrow>
             teardown X = [] \<and> vars' = map mark (setVars_vars A cfg native (world s)))"
proof -
  let ?V = "setVars_vars A cfg native (world s)"
  have len: "length ?V = 5"
    by (simp add: setVars_vars_def vars_literal_def Let_def)
  have fresh: "\<forall>v\<in>set ?V. \<not> initialized v"
    by (rule setVars_vars_shape [THEN conjunct2, THEN conjunct2])
  obtain r vars' s'' where R: "setVars_register A 0 ?V s = (r, vars', s'')"
    by (cases "setVars_register A 0 ?V s")
  show ?thesis
  proof (cases r)
    case None
    with R assms have res: "res = Inr vars'" and s': "s' = s''"
      by (simp_all add: setVars_def)
    from R None have "setVars_register A (length ([] :: envvar list)) ([] @ ?V) s = (None, vars', s'')"
      by simp
    from register_succeeds [OF this] have v: "vars' = map mark ?V" and a: "s'' = applied A ?V s"
      by simp_all
    let ?X = "map prepare_event ?V"
    have t: "trace s' = trace s @ ?X"
      by (simp add: s' a trace_applied)
    have "take (Suc 4) ?V = ?V" using len by simp
    with prepared_as_ssh [of 4 A cfg native "world s"]
    have p: "prepared_as envPipeName ?X = [(val (ssh_entry A cfg native (world s)), False, False)]"
      by simp
    from t p res v project_prepares [of ?V] show ?thesis by blast
  next
    case (Some e)
    with R assms have res: "res = Inl e" and s': "s' = s''"
      by (simp_all add: setVars_def)
    from register_rollback_state [OF fresh R [unfolded Some]] obtain k where k: "k < length ?V"
      and st: "s'' = fold (clean_one A) (rev (take k ?V))
                (snd (call_Prepare A (?V ! k) (applied A (take k ?V) s)))"
      by blast
    let ?sk = "snd (call_Prepare A (?V ! k) (applied A (take k ?V) s))"
    have tk: "trace ?sk = trace s @ map prepare_event (take (Suc k) ?V)"
      using k by (simp add: trace_call_Prepare trace_applied take_Suc_conv_app_nth)
    from fold_clean_trace [of A "rev (take k ?V)" ?sk envPipeName]
    obtain X where X: "trace s'' = trace ?sk @ X"
      and p: "serves X = []" "closes X = []" "prepared_as envPipeName X = []"
      unfolding st by blast
    let ?Y = "map prepare_event (take (Suc k) ?V) @ X"
    have 1: "trace s' = trace s @ ?Y" using X tk s' by simp
    have 2: "serves ?Y = [] \<and> closes ?Y = []"
      using p project_prepares [of "take (Suc k) ?V"] by (simp add: serves_append closes_append)
    have 3: "prepared_as envPipeName ?Y = [(val (ssh_entry A cfg native (world s)), False, False)]"
      using p prepared_as_ssh [of k A cfg native "world s"] by (simp add: prepared_as_append)
    from 1 2 3 res show ?thesis by blast
  qed
qed

lemma fold_onSession_trace:
  "\<exists>X. trace (fold (onSession A) evs s) = trace s @ X \<and> list_all is_other X"
proof (induction evs arbitrary: s)
  case Nil
  then show ?case by simp
next
  case (Cons ev evs)
  from Cons.IH [of "onSession A ev s"] obtain X
    where X: "trace (fold (onSession A) evs (onSession A ev s)) = trace (onSession A ev s) @ X"
      and o: "list_all is_other X"
    by blast
  obtain L where L: "trace (onSession A ev s) = trace s @ L" and oL: "list_all is_other L"
    by (cases ev) (simp_all add: call0_def emit_def)
  have "trace (fold (onSession A) (ev # evs) s) = trace s @ (L @ X)"
    using X L by simp
  moreover have "list_all is_other (L @ X)" using o oL by simp
  ultimately show ?case by blast
qed

lemma systray_Run_trace:
  "\<exists>X. trace (systray_Run A evs s) = trace s @ X \<and> list_all is_other X"
proof -
  let ?s1 = "onReady s"
  from fold_onSession_trace [of A evs ?s1] obtain X
    where X: "trace (fold (onSession A) evs ?s1) = trace ?s1 @ X" and o: "list_all is_other X"
    by blast
  let ?s2 = "fold (onSession A) evs ?s1"
  have 1: "trace ?s1 = trace s @ [EvLog ''Entering systray'']"
    by (simp add: onReady_def log_Print_def emit_def)
  have "\<exists>L. trace (onExit A ?s2) = trace ?s2 @ L \<and> list_all is_other L"
  proof (cases "Stop A (world ?s2)")
    case (Pair e w)
    then show ?thesis
      by (cases e) (simp_all add: onExit_def call_def emit_def log_Print_def)
  qed
  then obtain L where L: "trace (onExit A ?s2) = trace ?s2 @ L" and oL: "list_all is_other L"
    by blast
  have "trace (systray_Run A evs s) = trace s @ (EvLog ''Entering systray'' # X @ L)"
    using X 1 L by (simp add: systray_Run_def)
  moreover have "list_all is_other (EvLog ''Entering systray'' # X @ L)"
    using o oL by simp
  ultimately show ?thesis by blast
qed

lemma run_start_trace:
  assumes "run_start A evs (s, ds) = (r, s', ds')"
  shows "ds' = ds \<and> (\<exists>X. trace s' = trace s @ X \<and> list_all is_other X)"
proof -
  obtain e w where S: "Start A (world s) = (e, w)" by (cases "Start A (world s)")
  let ?s1 = "emit EvStart (s\<lparr>world := w\<rparr>)"
  have t1: "trace ?s1 = trace s @ [EvStart]" by (simp add: emit_def)
  show ?thesis
  proof (cases e)
    case None
    with S assms have d: "ds' = ds" and s': "s' = systray_Run A evs ?s1"
      by (simp_all add: run_start_def call_def)
    from systray_Run_trace [of A evs ?s1] obtain X
      where X: "trace (systray_Run A evs ?s1) = trace ?s1 @ X" and o: "list_all is_other X"
      by blast
    have "trace s' = trace s @ (EvStart # X)" using X t1 s' by simp
    moreover have "list_all is_other (EvStart # X)" using o by simp
    ultimately show ?thesis using d by blast
  next
    case (Some m)
    with S assms have d: "ds' = ds" and s': "s' = ?s1"
      by (simp_all add: run_start_def call_def)
    have "trace s' = trace s @ [EvStart]" using t1 s' by simp
    moreover have "list_all is_other [EvStart]" by simp
    ultimately show ?thesis using d by blast
  qed
qed

lemma run_defers_trace:
  "\<exists>X. trace (run_defers A ds s) = trace s @ X \<and> serves X = [] \<and> prepared_as n X = []
       \<and> teardown X = concat (map deferred_teardown ds)"
proof (induction ds arbitrary: s)
  case Nil
  then show ?case by (simp add: run_defers_def teardown_def)
next
  case (Cons d ds)
  let ?s1 = "run_deferred A d s"
  from Cons.IH [of ?s1] obtain X where X: "trace (run_defers A ds ?s1) = trace ?s1 @ X"
    and p: "serves X = []" "prepared_as n X = []"
    and t: "teardown X = concat (map deferred_teardown ds)"
    by blast
  have "\<exists>L. trace ?s1 = trace s @ L \<and> serves L = [] \<and> prepared_as n L = []
            \<and> teardown L = deferred_teardown d"
  proof (cases d)
    case (DeferClose k)
    then show ?thesis by (simp add: call0_def emit_def teardown_def)
  next
    case (DeferCleaner vars)
    from fold_clean_trace [of A "rev (filter initialized vars)" s n]
    show ?thesis using DeferCleaner by (auto simp: cleaner_eq)
  qed
  then obtain L where L: "trace ?s1 = trace s @ L" and pL: "serves L = []" "prepared_as n L = []"
    and tL: "teardown L = deferred_teardown d"
    by blast
  have 1: "trace (run_defers A (d # ds) s) = trace s @ (L @ X)"
    using X L by (simp add: run_defers_def)
  have 2: "serves (L @ X) = [] \<and> prepared_as n (L @ X) = []
           \<and> teardown (L @ X) = concat (map deferred_teardown (d # ds))"
    using p t pL tL by (simp add: serves_append prepared_as_append teardown_append)
  from 1 2 show ?case by blast
qed

lemma and_then_None: "and_then (None, f) g = g f"
  by (simp add: and_then_def)

lemma and_then_Some: "and_then (Some e, f) g = (Some e, f)"
  by (simp add: and_then_def)

lemma and_then_assoc: "and_then (and_then r f) g = and_then r (\<lambda>x. and_then (f x) g)"
  by (cases r) (simp add: and_then_def split: option.splits)

lemma run_body_chain:
  "run_body A cfg evs s =
     and_then (serve_chain A (enabled_connectors cfg) (s, []))
       (\<lambda>f. and_then (run_setenv A cfg f) (run_start A evs))"
  by (cases "GUI_ExtraPort cfg = 0")
     (simp_all add: run_body_def enabled_connectors_def run_extra_port_def and_then_assoc
        and_then_None)

lemma serve_chain_in_order:
  "serve_chain A ks (s, ds) =
     (case serve_in_order A ks s of
        (None, called, s1) \<Rightarrow> (None, s1, map DeferClose (rev called) @ ds)
      | (Some e, called, s1) \<Rightarrow> (Some e, s1, map DeferClose (rev (butlast called)) @ ds))"
proof (induction ks arbitrary: s ds)
  case Nil
  then show ?case by simp
next
  case (Cons k ks)
  obtain r s' where c: "call (EvServe k) (Serve A k) s = (r, s')"
    by (cases "call (EvServe k) (Serve A k) s")
  show ?case
  proof (cases r)
    case (Some e)
    with c show ?thesis by (simp add: serve_defer_def and_then_Some)
  next
    case None
    obtain r2 called s2 where i: "serve_in_order A ks s' = (r2, called, s2)"
      by (cases "serve_in_order A ks s'")
    have ne: "r2 \<noteq> None \<Longrightarrow> called \<noteq> []"
      using i by (cases ks) (auto split: prod.splits option.splits)
    from c None have "serve_chain A (k # ks) (s, ds) = serve_chain A ks (s', DeferClose k # ds)"
      by (simp add: serve_defer_def and_then_None)
    also have "\<dots> = (case serve_in_order A ks s' of
        (None, called, s1) \<Rightarrow> (None, s1, map DeferClose (rev called) @ DeferClose k # ds)
      | (Some e, called, s1) \<Rightarrow>
          (Some e, s1, map DeferClose (rev (butlast called)) @ DeferClose k # ds))"
      by (rule Cons.IH)
    finally show ?thesis
      using c None i ne by (cases r2) simp_all
  qed
qed

lemma serve_in_order_trace:
  "serve_in_order A ks s = (r, called, s1) \<Longrightarrow>
   trace s1 = trace s @ map EvServe called \<and> prefix called ks
   \<and> (r = None \<longrightarrow> called = ks) \<and> (r \<noteq> None \<longrightarrow> called \<noteq> [])"
proof (induction ks arbitrary: s r called s1)
  case Nil
  then show ?case by simp
next
  case (Cons k ks)
  obtain r1 s' where c: "call (EvServe k) (Serve A k) s = (r1, s')"
    by (cases "call (EvServe k) (Serve A k) s")
  then have t: "trace s' = trace s @ [EvServe k]"
    by (auto simp: call_def emit_def split: prod.splits)
  show ?case
  proof (cases r1)
    case (Some e)
    with c Cons.prems t show ?thesis by auto
  next
    case None
    obtain r2 called2 s2 where i: "serve_in_order A ks s' = (r2, called2, s2)"
      by (cases "serve_in_order A ks s'")
    from Cons.IH [OF i] c None i Cons.prems t show ?thesis by auto
  qed
qed

lemma teardown_defer_closes:
  "concat (map (deferred_teardown \<circ> DeferClose) ks) = map EvClose ks"
  by (induction ks) simp_all

lemma closes_teardown: "closes (teardown X) = closes X"
  by (induction X rule: closes.induct) (simp_all add: teardown_def)

lemma clean_event_mark: "clean_event (mark v) = clean_event v"
  by (simp add: clean_event_def mark_def)

lemma cleans_of_setVars_vars:
  "map clean_event (rev (filter initialized (map mark (setVars_vars A cfg native w)))) =
   map clean_event (rev (vars_literal A cfg))"
  by (simp add: setVars_vars_def vars_literal_def Let_def mark_def clean_event_def)

text \<open>The run after the connectors were served, whatever the outcome.\<close>

lemma run_trace:
  assumes so: "serve_in_order A (enabled_connectors cfg) s = (r, called, s1)"
  shows "\<exists>Y. trace (snd (run A cfg evs s)) = trace s1 @ Y \<and> serves Y = []
     \<and> (r \<noteq> None \<longrightarrow> fst (run A cfg evs s) = r)
     \<and> (r = None \<and> GUI_SetEnv cfg \<longrightarrow>
          prepared_as envPipeName Y =
            [(val (ssh_entry A cfg (\<not> EqualFold (GUI_SSH cfg) ''cygwin'') (world s1)),
              False, False)])
     \<and> (fst (run A cfg evs s) = None \<longrightarrow>
          r = None
          \<and> teardown Y =
            (if GUI_SetEnv cfg then map clean_event (rev (vars_literal A cfg)) else [])
            @ map EvClose (rev (enabled_connectors cfg)))"
proof (cases r)
  case (Some e)
  let ?ds = "map DeferClose (rev (butlast called))"
  have b: "run_body A cfg evs s = (Some e, s1, ?ds)"
    using so Some by (simp add: run_body_chain serve_chain_in_order and_then_Some)
  then have r: "run A cfg evs s = (Some e, run_defers A ?ds s1)"
    by (simp add: run_def)
  from run_defers_trace [of A ?ds s1 envPipeName] obtain X
    where "trace (run_defers A ?ds s1) = trace s1 @ X" "serves X = []"
    by blast
  with r Some show ?thesis by auto
next
  case None
  let ?ds = "map DeferClose (rev (enabled_connectors cfg))"
  let ?cl = "map EvClose (rev (enabled_connectors cfg))"
  from serve_in_order_trace [OF so] None have called: "called = enabled_connectors cfg"
    by simp
  have b: "run_body A cfg evs s = and_then (run_setenv A cfg (s1, ?ds)) (run_start A evs)"
    using so None called by (simp add: run_body_chain serve_chain_in_order and_then_None)
  show ?thesis
  proof (cases "GUI_SetEnv cfg")
    case False
    obtain r3 s3 d3 where st: "run_start A evs (s1, ?ds) = (r3, s3, d3)"
      by (cases "run_start A evs (s1, ?ds)")
    from run_start_trace [OF st] obtain X3 where d3: "d3 = ?ds"
      and X3: "trace s3 = trace s1 @ X3" and o3: "list_all is_other X3"
      by blast
    have r: "run A cfg evs s = (r3, run_defers A ?ds s3)"
      using b False st d3 by (simp add: run_def run_setenv_def and_then_None)
    from run_defers_trace [of A ?ds s3 envPipeName] obtain X4
      where X4: "trace (run_defers A ?ds s3) = trace s3 @ X4" and p4: "serves X4 = []"
        and t4: "teardown X4 = concat (map deferred_teardown ?ds)"
      by blast
    have 1: "trace (snd (run A cfg evs s)) = trace s1 @ (X3 @ X4)"
      using r X3 X4 by simp
    have 2: "serves (X3 @ X4) = []"
      using p4 others_project [OF o3, of envPipeName] by (simp add: serves_append)
    have 3: "teardown (X3 @ X4) = ?cl"
      using t4 others_project [OF o3, of envPipeName]
      by (simp add: teardown_append teardown_defer_closes)
    from 1 2 3 None False show ?thesis by auto
  next
    case True
    let ?native = "\<not> EqualFold (GUI_SSH cfg) ''cygwin''"
    obtain res s2 where sv: "setVars A cfg ?native s1 = (res, s2)"
      by (cases "setVars A cfg ?native s1")
    from setVars_trace [OF sv] obtain X2 where X2: "trace s2 = trace s1 @ X2"
      and p2: "serves X2 = []"
      and q2: "prepared_as envPipeName X2 = [(val (ssh_entry A cfg ?native (world s1)), False, False)]"
      and ok2: "\<forall>vars'. res = Inr vars' \<longrightarrow>
             teardown X2 = [] \<and> vars' = map mark (setVars_vars A cfg ?native (world s1))"
      by blast
    show ?thesis
    proof (cases res)
      case (Inl e)
      have r: "run A cfg evs s = (Some e, run_defers A ?ds s2)"
        using b True sv Inl by (simp add: run_def run_setenv_def and_then_Some)
      from run_defers_trace [of A ?ds s2 envPipeName] obtain X4
        where X4: "trace (run_defers A ?ds s2) = trace s2 @ X4" and p4: "serves X4 = []"
          and q4: "prepared_as envPipeName X4 = []"
        by blast
      have 1: "trace (snd (run A cfg evs s)) = trace s1 @ (X2 @ X4)"
        using r X2 X4 by simp
      have 2: "serves (X2 @ X4) = []" using p2 p4 by (simp add: serves_append)
      have 3: "prepared_as envPipeName (X2 @ X4) =
                 [(val (ssh_entry A cfg ?native (world s1)), False, False)]"
        using q2 q4 by (simp add: prepared_as_append)
      from 1 2 3 r None show ?thesis by auto
    next
      case (Inr vars')
      with ok2 have t2: "teardown X2 = []"
        and v': "vars' = map mark (setVars_vars A cfg ?native (world s1))"
        by simp_all
      let ?dd = "DeferCleaner vars' # ?ds"
      obtain r3 s3 d3 where st: "run_start A evs (s2, ?dd) = (r3, s3, d3)"
        by (cases "run_start A evs (s2, ?dd)")
      from run_start_trace [OF st] obtain X3 where d3: "d3 = ?dd"
        and X3: "trace s3 = trace s2 @ X3" and o3: "list_all is_other X3"
        by blast
      have r: "run A cfg evs s = (r3, run_defers A ?dd s3)"
        using b True sv Inr st d3 by (simp add: run_def run_setenv_def and_then_None)
      from run_defers_trace [of A ?dd s3 envPipeName] obtain X4
        where X4: "trace (run_defers A ?dd s3) = trace s3 @ X4" and p4: "serves X4 = []"
          and q4: "prepared_as envPipeName X4 = []"
          and t4: "teardown X4 = concat (map deferred_teardown ?dd)"
        by blast
      let ?Y = "X2 @ X3 @ X4"
      have 1: "trace (snd (run A cfg evs s)) = trace s1 @ ?Y"
        using r X2 X3 X4 by simp
      have 2: "serves ?Y = []"
        using p2 p4 others_project [OF o3, of envPipeName] by (simp add: serves_append)
      have 3: "prepared_as envPipeName ?Y =
                 [(val (ssh_entry A cfg ?native (world s1)), False, False)]"
        using q2 q4 others_project [OF o3, of envPipeName] by (simp add: prepared_as_append)
      have 4: "teardown ?Y = map clean_event (rev (vars_literal A cfg)) @ ?cl"
        using t2 t4 others_project [OF o3, of envPipeName]
        by (simp add: teardown_append teardown_defer_closes v' cleans_of_setVars_vars)
      from 1 2 3 4 None True show ?thesis by auto
    qed
  qed
qed

lemma run_new_events:
  assumes so: "serve_in_order A (enabled_connectors cfg) s = (r, called, s1)"
      and Y: "trace (snd (run A cfg evs s)) = trace s1 @ Y"
  shows "new_events s (snd (run A cfg evs s)) = map EvServe called @ Y"
  using serve_in_order_trace [OF so] Y by (simp add: new_events_def)

lemma EqualFold_examples:
  "EqualFold ''Cygwin'' ''cygwin'' \<and> EqualFold ''CYGWIN'' ''cygwin''
   \<and> \<not> EqualFold ''native'' ''cygwin'' \<and> \<not> EqualFold [] ''cygwin''"
  by (simp add: EqualFold_def foldASCII_def)

subsection \<open>Startup and teardown\<close>

text \<open>
  C4. \<open>run\<close> serves the connectors in the fixed order Cygwin SSH socket, SSH pipe, SSH
  Unix socket, extra TCP port, gpg-agent socket, extra gpg-agent socket, the extra port
  only when the configured port is not zero (\<open>enabled_connectors\<close>), and stops at the
  first error: where serving that list one by one up to the first error calls \<open>Serve\<close>
  on the connectors \<open>called\<close> with result \<open>r\<close>, the \<open>Serve\<close> calls of the whole run are
  exactly \<open>called\<close>, a prefix of the list that is the whole list when no call fails,
  and an error \<open>r\<close> is what \<open>run\<close> returns.
\<close>

theorem run_serves_in_order:
  assumes so: "serve_in_order A (enabled_connectors cfg) s = (r, called, s1)"
  shows "serves (new_events s (snd (run A cfg evs s))) = called
     \<and> prefix called (enabled_connectors cfg)
     \<and> (r = None \<longrightarrow> called = enabled_connectors cfg)
     \<and> (r \<noteq> None \<longrightarrow> fst (run A cfg evs s) = r)"
proof -
  from run_trace [OF so, of evs] obtain Y
    where Y: "trace (snd (run A cfg evs s)) = trace s1 @ Y" and sY: "serves Y = []"
      and e: "r \<noteq> None \<longrightarrow> fst (run A cfg evs s) = r"
    by blast
  have "serves (new_events s (snd (run A cfg evs s))) = called"
    using sY by (simp add: run_new_events [OF so Y] serves_append serves_map_EvServe)
  with serve_in_order_trace [OF so] e show ?thesis by blast
qed

theorem run_serves_in_order_witness:
  "serves (new_events (sim_init sim_empty)
     (snd (run (sim_api [ConnectorSockAgentSSH] [] []) sim_cfg_port [] (sim_init sim_empty)))) =
     [ConnectorSockAgentCygwinSSH, ConnectorPipeSSH, ConnectorSockAgentSSH]
   \<and> fst (run (sim_api [ConnectorSockAgentSSH] [] []) sim_cfg_port [] (sim_init sim_empty)) =
       Some ''address in use''
   \<and> serves (new_events (sim_init sim_empty)
       (snd (run (sim_api [] [] []) sim_cfg_port [] (sim_init sim_empty)))) =
     [ConnectorSockAgentCygwinSSH, ConnectorPipeSSH, ConnectorSockAgentSSH,
      ConnectorExtraPort, ConnectorSockAgent, ConnectorSockAgentExtra]"
proof -
  let ?A = "sim_api [ConnectorSockAgentSSH] [] []"
  let ?B = "sim_api [] [] []"
  let ?s = "sim_init sim_empty"
  obtain r called s1 where so: "serve_in_order ?A (enabled_connectors sim_cfg_port) ?s = (r, called, s1)"
    by (cases "serve_in_order ?A (enabled_connectors sim_cfg_port) ?s")
  have "fst (serve_in_order ?A (enabled_connectors sim_cfg_port) ?s) = Some ''address in use''"
    and "fst (snd (serve_in_order ?A (enabled_connectors sim_cfg_port) ?s)) =
         [ConnectorSockAgentCygwinSSH, ConnectorPipeSSH, ConnectorSockAgentSSH]"
    by code_simp+
  with so have r: "r = Some ''address in use''"
    and c: "called = [ConnectorSockAgentCygwinSSH, ConnectorPipeSSH, ConnectorSockAgentSSH]"
    by simp_all
  obtain r' called' s1' where so': "serve_in_order ?B (enabled_connectors sim_cfg_port) ?s = (r', called', s1')"
    by (cases "serve_in_order ?B (enabled_connectors sim_cfg_port) ?s")
  have "fst (serve_in_order ?B (enabled_connectors sim_cfg_port) ?s) = None"
    by code_simp
  with so' have r': "r' = None" by simp
  have e: "enabled_connectors sim_cfg_port =
     [ConnectorSockAgentCygwinSSH, ConnectorPipeSSH, ConnectorSockAgentSSH,
      ConnectorExtraPort, ConnectorSockAgent, ConnectorSockAgentExtra]"
    by (simp add: enabled_connectors_def sim_cfg_port_def sim_cfg_def)
  from run_serves_in_order [OF so, of "[]"] run_serves_in_order [OF so', of "[]"] r c r' e
  show ?thesis by simp
qed

text \<open>
  C3 (as amended). When \<open>run\<close> returns no error, every connector of the configured
  list was served in order and is closed in exactly the reverse order, and the removals
  of the published variables, when publication is enabled, come before all the closes,
  from the last variable to the first: the cleaner is the last call deferred, so it is
  the first to run.
\<close>

theorem run_teardown_order:
  assumes ok: "fst (run A cfg evs s) = None"
  shows "serves (new_events s (snd (run A cfg evs s))) = enabled_connectors cfg
     \<and> closes (new_events s (snd (run A cfg evs s))) = rev (enabled_connectors cfg)
     \<and> teardown (new_events s (snd (run A cfg evs s))) =
         (if GUI_SetEnv cfg
          then [EvClean ''WIN_AGENT_HOME'' True, EvClean ''WSL_AGENT_HOME'' True,
                EvClean ''WIN_GNUPG_HOME'' True, EvClean ''WSL_GNUPG_HOME'' True,
                EvClean ''SSH_AUTH_SOCK'' False]
          else [])
         @ map EvClose (rev (enabled_connectors cfg))"
proof -
  obtain r called s1 where so: "serve_in_order A (enabled_connectors cfg) s = (r, called, s1)"
    by (cases "serve_in_order A (enabled_connectors cfg) s")
  from run_trace [OF so, of evs] ok obtain Y
    where Y: "trace (snd (run A cfg evs s)) = trace s1 @ Y" and sY: "serves Y = []"
      and r: "r = None"
      and t: "teardown Y =
            (if GUI_SetEnv cfg then map clean_event (rev (vars_literal A cfg)) else [])
            @ map EvClose (rev (enabled_connectors cfg))"
    by blast
  from serve_in_order_trace [OF so] r have called: "called = enabled_connectors cfg"
    by simp
  let ?N = "new_events s (snd (run A cfg evs s))"
  have n: "?N = map EvServe (enabled_connectors cfg) @ Y"
    using run_new_events [OF so Y] called by simp
  have 1: "serves ?N = enabled_connectors cfg"
    using sY by (simp add: n serves_append serves_map_EvServe)
  have cl: "map clean_event (rev (vars_literal A cfg)) =
          [EvClean ''WIN_AGENT_HOME'' True, EvClean ''WSL_AGENT_HOME'' True,
           EvClean ''WIN_GNUPG_HOME'' True, EvClean ''WSL_GNUPG_HOME'' True,
           EvClean ''SSH_AUTH_SOCK'' False]"
    by (simp add: vars_literal_def clean_event_def envPipeName_def envGPGHomeName_def
        envGUIHomeName_def)
  have 3: "teardown ?N =
         (if GUI_SetEnv cfg
          then [EvClean ''WIN_AGENT_HOME'' True, EvClean ''WSL_AGENT_HOME'' True,
                EvClean ''WIN_GNUPG_HOME'' True, EvClean ''WSL_GNUPG_HOME'' True,
                EvClean ''SSH_AUTH_SOCK'' False]
          else [])
         @ map EvClose (rev (enabled_connectors cfg))"
    using t project_map_EvServe [of "enabled_connectors cfg" envPipeName]
    by (simp add: n teardown_append cl)
  have "closes ?N = closes (teardown ?N)"
    by (simp add: closes_teardown)
  also have "\<dots> = rev (enabled_connectors cfg)"
    using project_map_EvClose [of "rev (enabled_connectors cfg)" envPipeName]
    by (simp add: 3 closes_append)
  finally have 2: "closes ?N = rev (enabled_connectors cfg)" .
  from 1 2 3 show ?thesis by blast
qed

theorem run_teardown_order_witness:
  "serves (new_events (sim_init sim_empty)
     (snd (run (sim_api [] [] []) sim_cfg_port [SesLock, SesOther 3, SesUnlock]
        (sim_init sim_empty)))) =
     [ConnectorSockAgentCygwinSSH, ConnectorPipeSSH, ConnectorSockAgentSSH,
      ConnectorExtraPort, ConnectorSockAgent, ConnectorSockAgentExtra]
   \<and> teardown (new_events (sim_init sim_empty)
     (snd (run (sim_api [] [] []) sim_cfg_port [SesLock, SesOther 3, SesUnlock]
        (sim_init sim_empty)))) =
     [EvClean ''WIN_AGENT_HOME'' True, EvClean ''WSL_AGENT_HOME'' True,
      EvClean ''WIN_GNUPG_HOME'' True, EvClean ''WSL_GNUPG_HOME'' True,
      EvClean ''SSH_AUTH_SOCK'' False,
      EvClose ConnectorSockAgentExtra, EvClose ConnectorSockAgent,
      EvClose ConnectorExtraPort, EvClose ConnectorSockAgentSSH, EvClose ConnectorPipeSSH,
      EvClose ConnectorSockAgentCygwinSSH]"
proof -
  have h: "fst (run (sim_api [] [] []) sim_cfg_port [SesLock, SesOther 3, SesUnlock]
             (sim_init sim_empty)) = None"
    by code_simp
  from run_teardown_order [OF h] show ?thesis
    by (simp add: enabled_connectors_def sim_cfg_port_def sim_cfg_def)
qed

text \<open>
  The claim as it was stated, that the revocation happens only after all connectors are
  closed, fails on a run where every call succeeds: the five removals precede the five
  closes.
\<close>

theorem run_revokes_before_closing:
  "fst (run (sim_api [] [] []) sim_cfg [] (sim_init sim_empty)) = None
   \<and> teardown (new_events (sim_init sim_empty)
        (snd (run (sim_api [] [] []) sim_cfg [] (sim_init sim_empty)))) =
     [EvClean ''WIN_AGENT_HOME'' True, EvClean ''WSL_AGENT_HOME'' True,
      EvClean ''WIN_GNUPG_HOME'' True, EvClean ''WSL_GNUPG_HOME'' True,
      EvClean ''SSH_AUTH_SOCK'' False,
      EvClose ConnectorSockAgentExtra, EvClose ConnectorSockAgent,
      EvClose ConnectorSockAgentSSH, EvClose ConnectorPipeSSH,
      EvClose ConnectorSockAgentCygwinSSH]"
  by code_simp

subsection \<open>The published variables\<close>

text \<open>
  C5. When the connectors were served without error and publication is enabled, the run
  writes the variable \<open>SSH_AUTH_SOCK\<close> exactly once, and its value is chosen by the
  configured \<open>GUI.SSH\<close>: the path of the Cygwin SSH connector when it equals \<open>cygwin\<close>
  up to the case of its letters, the configured pipe name for every other mode.
\<close>

theorem run_publishes_ssh_socket:
  assumes so: "serve_in_order A (enabled_connectors cfg) s = (None, called, s1)"
      and env: "GUI_SetEnv cfg"
  shows "prepared_as envPipeName (new_events s (snd (run A cfg evs s))) =
           [(if EqualFold (GUI_SSH cfg) ''cygwin''
             then PathGUI A ConnectorSockAgentCygwinSSH (world s1)
             else GUI_PipeName cfg, False, False)]"
proof -
  from run_trace [OF so, of evs] env obtain Y
    where Y: "trace (snd (run A cfg evs s)) = trace s1 @ Y"
      and p: "prepared_as envPipeName Y =
            [(val (ssh_entry A cfg (\<not> EqualFold (GUI_SSH cfg) ''cygwin'') (world s1)),
              False, False)]"
    by blast
  show ?thesis
    using p project_map_EvServe [of called envPipeName]
    by (simp add: run_new_events [OF so Y] prepared_as_append ssh_entry_def)
qed

theorem run_publishes_ssh_socket_witness:
  "prepared_as envPipeName (new_events (sim_init sim_empty)
     (snd (run (sim_api [] [] []) sim_cfg [] (sim_init sim_empty)))) =
     [(''S.gpg-agent.ssh.cyg'', False, False)]
   \<and> prepared_as envPipeName (new_events (sim_init sim_empty)
     (snd (run (sim_api [] [] []) sim_cfg_native [] (sim_init sim_empty)))) =
     [(''openssh-ssh-agent'', False, False)]"
proof -
  let ?A = "sim_api [] [] []"
  let ?s = "sim_init sim_empty"
  obtain r called s1 where so: "serve_in_order ?A (enabled_connectors sim_cfg) ?s = (r, called, s1)"
    by (cases "serve_in_order ?A (enabled_connectors sim_cfg) ?s")
  have "fst (serve_in_order ?A (enabled_connectors sim_cfg) ?s) = None"
    by code_simp
  with so have so1: "serve_in_order ?A (enabled_connectors sim_cfg) ?s = (None, called, s1)"
    by simp
  obtain r' called' s1' where so': "serve_in_order ?A (enabled_connectors sim_cfg_native) ?s = (r', called', s1')"
    by (cases "serve_in_order ?A (enabled_connectors sim_cfg_native) ?s")
  have "fst (serve_in_order ?A (enabled_connectors sim_cfg_native) ?s) = None"
    by code_simp
  with so' have so2: "serve_in_order ?A (enabled_connectors sim_cfg_native) ?s = (None, called', s1')"
    by simp
  have e1: "GUI_SetEnv sim_cfg" and e2: "GUI_SetEnv sim_cfg_native"
    by (simp_all add: sim_cfg_def sim_cfg_native_def)
  from run_publishes_ssh_socket [OF so1 e1, of "[]"] run_publishes_ssh_socket [OF so2 e2, of "[]"]
  show ?thesis
    by (simp add: EqualFold_examples sim_cfg_def sim_cfg_native_def sim_api_def)
qed

subsection \<open>The five variables\<close>

lemma setVars_success_calls:
  assumes "setVars A cfg native s = (Inr vars', s')"
  shows "calls (new_events s s') = map prepare_event (setVars_vars A cfg native (world s))
       \<and> vars' = map mark (setVars_vars A cfg native (world s))
       \<and> s' = applied A (setVars_vars A cfg native (world s)) s"
proof -
  let ?V = "setVars_vars A cfg native (world s)"
  obtain r v1 s1 where R: "setVars_register A 0 ?V s = (r, v1, s1)"
    by (cases "setVars_register A 0 ?V s")
  with assms have r: "r = None" and v: "v1 = vars'" and s1: "s1 = s'"
    by (auto simp: setVars_def split: option.splits)
  from R r have "setVars_register A (length ([] :: envvar list)) ([] @ ?V) s = (None, v1, s1)"
    by simp
  from register_succeeds [OF this] have "v1 = map mark ?V" and a: "s1 = applied A ?V s"
    by simp_all
  moreover have "new_events s s' = map prepare_event ?V"
    using a s1 by (simp add: new_events_def trace_applied)
  ultimately show ?thesis using v s1 by (simp add: calls_prepare_events)
qed



lemma call_Prepare_world:
  "world (snd (call_Prepare A v s)) =
     snd (PrepareUserEnvironmentVariable A (name v) (val v) (register v) (translate v) (world s))"
  by (simp add: call_Prepare_def call_def emit_def split: prod.splits)

lemma clean_one_world:
  "world (clean_one A v s) =
     snd (CleanUserEnvironmentVariable A (name v) (register v) (world s))"
  by (cases rule: clean_one_cases [of A v s]) simp_all

lemma setVars_vars_spare: "\<forall>v\<in>set (setVars_vars A cfg native w). spares envPipeName v"
  by (simp add: setVars_vars_def vars_literal_def Let_def spares_def envPipeName_def
      envGPGHomeName_def envGUIHomeName_def)

lemma spares_mark: "spares n (mark v) = spares n v"
  by (simp add: spares_def mark_def)

text \<open>
  The calls on entries that spare \<open>n\<close> leave the persistent value \<open>pv\<close> of \<open>n\<close> alone,
  when writes and removals without the persistence flag, and calls on other variables, do.
\<close>

lemma spared_calls:
  assumes np: "\<forall>v t w. pv (snd (PrepareUserEnvironmentVariable A n v False t w)) = pv w"
      and nc: "\<forall>w. pv (snd (CleanUserEnvironmentVariable A n False w)) = pv w"
      and op: "\<forall>n' v r t w. n' \<noteq> n \<longrightarrow>
                 pv (snd (PrepareUserEnvironmentVariable A n' v r t w)) = pv w"
      and oc: "\<forall>n' r w. n' \<noteq> n \<longrightarrow> pv (snd (CleanUserEnvironmentVariable A n' r w)) = pv w"
  shows "spares n v \<Longrightarrow> pv (world (snd (call_Prepare A v s))) = pv (world s)"
    and "spares n v \<Longrightarrow> pv (world (clean_one A v s)) = pv (world s)"
    and "\<forall>v\<in>set vs. spares n v \<Longrightarrow> pv (world (applied A vs s)) = pv (world s)"
    and "\<forall>v\<in>set vs. spares n v \<Longrightarrow> pv (world (fold (clean_one A) vs s)) = pv (world s)"
proof -
  show 1: "pv (world (snd (call_Prepare A v s))) = pv (world s)" if "spares n v" for v s
  proof (cases "name v = n")
    case True
    with that have "\<not> register v" by (simp add: spares_def)
    with True np show ?thesis by (simp add: call_Prepare_world)
  next
    case False
    with op show ?thesis by (simp add: call_Prepare_world)
  qed
  show 2: "pv (world (clean_one A v s)) = pv (world s)" if "spares n v" for v s
  proof (cases "name v = n")
    case True
    with that have "\<not> register v" by (simp add: spares_def)
    with True nc show ?thesis by (simp add: clean_one_world)
  next
    case False
    with oc show ?thesis by (simp add: clean_one_world)
  qed
  show "\<forall>v\<in>set vs. spares n v \<Longrightarrow> pv (world (applied A vs s)) = pv (world s)"
    by (induction vs arbitrary: s) (simp_all add: applied_def 1)
  show "\<forall>v\<in>set vs. spares n v \<Longrightarrow> pv (world (fold (clean_one A) vs s)) = pv (world s)"
    by (induction vs arbitrary: s) (simp_all add: 2)
qed

text \<open>
  C9. In every publication, native or not, the entry of \<open>SSH_AUTH_SOCK\<close> has the
  persistence flag unset and the four home-path entries have it set. So the variable
  is never written to the persistent store: let \<open>pv\<close> read the persistent value of
  \<open>SSH_AUTH_SOCK\<close> from the world, a value that a write or a removal of that variable
  without the persistence flag leaves as it is, as do the calls on other variables.
  Then \<open>setVars\<close>, whether it succeeds or rolls back, leaves \<open>pv\<close> as it was, and so does
  the cleaner it returns, whenever that is run.
\<close>

theorem ssh_socket_not_persistent:
  assumes np: "\<forall>v t w. pv (snd (PrepareUserEnvironmentVariable A envPipeName v False t w)) = pv w"
      and nc: "\<forall>w. pv (snd (CleanUserEnvironmentVariable A envPipeName False w)) = pv w"
      and op: "\<forall>n' v r t w. n' \<noteq> envPipeName \<longrightarrow>
                 pv (snd (PrepareUserEnvironmentVariable A n' v r t w)) = pv w"
      and oc: "\<forall>n' r w. n' \<noteq> envPipeName \<longrightarrow>
                 pv (snd (CleanUserEnvironmentVariable A n' r w)) = pv w"
  shows "map name (setVars_vars A cfg native w) =
           [''SSH_AUTH_SOCK'', ''WSL_GNUPG_HOME'', ''WIN_GNUPG_HOME'', ''WSL_AGENT_HOME'',
            ''WIN_AGENT_HOME'']
     \<and> map register (setVars_vars A cfg native w) = [False, True, True, True, True]
     \<and> (\<forall>res s'. setVars A cfg native s = (res, s') \<longrightarrow>
           pv (world s') = pv (world s)
           \<and> (\<forall>vars' s''. res = Inr vars' \<longrightarrow>
                 pv (world (snd (cleaner A vars' s''))) = pv (world s'')))"
proof -
  note sp = spared_calls [of pv A envPipeName, OF np nc op oc]
  have flags: "map name (setVars_vars A cfg native w) =
           [''SSH_AUTH_SOCK'', ''WSL_GNUPG_HOME'', ''WIN_GNUPG_HOME'', ''WSL_AGENT_HOME'',
            ''WIN_AGENT_HOME'']
     \<and> map register (setVars_vars A cfg native w) = [False, True, True, True, True]"
    by (simp add: setVars_vars_def vars_literal_def Let_def envPipeName_def envGPGHomeName_def
        envGUIHomeName_def)
  have run: "pv (world s') = pv (world s)
           \<and> (\<forall>vars' s''. res = Inr vars' \<longrightarrow>
                 pv (world (snd (cleaner A vars' s''))) = pv (world s''))"
    if sv: "setVars A cfg native s = (res, s')" for res s'
  proof -
    let ?V = "setVars_vars A cfg native (world s)"
    have spV: "\<forall>v\<in>set ?V. spares envPipeName v" by (rule setVars_vars_spare)
    have fresh: "\<forall>v\<in>set ?V. \<not> initialized v"
      by (rule setVars_vars_shape [THEN conjunct2, THEN conjunct2])
    show ?thesis
    proof (cases res)
      case (Inr vars')
      from setVars_success_calls [OF sv [unfolded Inr]]
      have v: "vars' = map mark ?V" and a: "s' = applied A ?V s" by simp_all
      have 1: "pv (world s') = pv (world s)" using sp(3) [OF spV] a by simp
      have "\<forall>v\<in>set (rev (filter initialized vars')). spares envPipeName v"
        using spV v by (auto simp: spares_mark)
      then have "pv (world (snd (cleaner A vars' s''))) = pv (world s'')" for s''
        using sp(4) by (simp add: cleaner_eq)
      with 1 Inr show ?thesis by simp
    next
      case (Inl e)
      obtain r v1 s1 where R: "setVars_register A 0 ?V s = (r, v1, s1)"
        by (cases "setVars_register A 0 ?V s")
      with sv Inl have r: "r = Some e" and s1: "s1 = s'"
        by (auto simp: setVars_def split: option.splits)
      from register_rollback_state [OF fresh R [unfolded r]] obtain k where k: "k < length ?V"
        and st: "s1 = fold (clean_one A) (rev (take k ?V))
                (snd (call_Prepare A (?V ! k) (applied A (take k ?V) s)))"
        by blast
      have t: "\<forall>v\<in>set (take k ?V). spares envPipeName v"
        using spV by (auto dest: in_set_takeD)
      then have t': "\<forall>v\<in>set (rev (take k ?V)). spares envPipeName v" by simp
      have vk: "spares envPipeName (?V ! k)" using spV k by simp
      have "pv (world s') = pv (world s)"
        unfolding s1 [symmetric] st
        by (simp only: sp(4) [OF t'] sp(1) [OF vk] sp(3) [OF t])
      with Inl show ?thesis by simp
    qed
  qed
  from flags run show ?thesis by blast
qed

theorem ssh_socket_not_persistent_witness:
  "user_sock (world (snd (setVars (sim_api [] [] []) sim_cfg False (sim_init sim_old_sock)))) =
     Some ''old''
   \<and> map_of (process_env
        (world (snd (setVars (sim_api [] [] []) sim_cfg False (sim_init sim_old_sock)))))
        ''SSH_AUTH_SOCK'' = Some ''S.gpg-agent.ssh.cyg''
   \<and> map_of (user_env
        (world (snd (setVars (sim_api [] [] []) sim_cfg False (sim_init sim_old_sock)))))
        ''WSL_GNUPG_HOME'' = Some ''gnupg''"
proof -
  let ?A = "sim_api [] [] []"
  let ?s = "sim_init sim_old_sock"
  have h1: "\<forall>v t w. user_sock (snd (PrepareUserEnvironmentVariable ?A envPipeName v False t w)) =
              user_sock w"
    by (simp add: sim_api_def sim_Prepare_def user_sock_def)
  have h2: "\<forall>w. user_sock (snd (CleanUserEnvironmentVariable ?A envPipeName False w)) = user_sock w"
    by (simp add: sim_api_def sim_Clean_def user_sock_def)
  have h3: "\<forall>n' v r t w. n' \<noteq> envPipeName \<longrightarrow>
              user_sock (snd (PrepareUserEnvironmentVariable ?A n' v r t w)) = user_sock w"
    by (simp add: sim_api_def sim_Prepare_def user_sock_def envPipeName_def update_conv)
  have h4: "\<forall>n' r w. n' \<noteq> envPipeName \<longrightarrow>
              user_sock (snd (CleanUserEnvironmentVariable ?A n' r w)) = user_sock w"
    by (simp add: sim_api_def sim_Clean_def user_sock_def envPipeName_def delete_conv)
  have "setVars ?A sim_cfg False ?s =
          (fst (setVars ?A sim_cfg False ?s), snd (setVars ?A sim_cfg False ?s))"
    by simp
  with ssh_socket_not_persistent [OF h1 h2 h3 h4, of sim_cfg False "world ?s" ?s]
  have "user_sock (world (snd (setVars ?A sim_cfg False ?s))) = user_sock (world ?s)"
    by blast
  then have 1: "user_sock (world (snd (setVars ?A sim_cfg False ?s))) = Some ''old''"
    by (simp add: user_sock_def sim_init_def sim_old_sock_def sim_empty_def)
  have 2: "map_of (process_env (world (snd (setVars ?A sim_cfg False ?s))))
        ''SSH_AUTH_SOCK'' = Some ''S.gpg-agent.ssh.cyg''"
    by code_simp
  have 3: "map_of (user_env (world (snd (setVars ?A sim_cfg False ?s))))
        ''WSL_GNUPG_HOME'' = Some ''gnupg''"
    by code_simp
  from 1 2 3 show ?thesis by simp
qed

subsection \<open>The clipboard service\<close>

lemma state_trace_id: "s\<lparr>trace := trace s @ []\<rparr> = s"
  by simp

lemma clip_keys_eq:
  "clip_keys H i ks pkeys s =
     (fold (add_key H) (filter valid_key ks) pkeys,
      s\<lparr>trace := trace s @ map (key_log H) (enumerate i ks)\<rparr>)"
proof (induction ks arbitrary: i pkeys s)
  case Nil
  then show ?case by simp
next
  case (Cons k ks)
  show ?case
  proof (cases "hex_DecodeString k")
    case (Inl e)
    then have nv: "\<not> valid_key k" by (simp add: valid_key_def)
    with Inl show ?thesis
      by (simp add: Cons.IH key_log_def log_Print_def emit_def)
  next
    case (Inr pk)
    show ?thesis
    proof (cases "length pk = 32")
      case True
      with Inr have v: "valid_key k" and d: "decoded k = pk"
        by (simp_all add: valid_key_def decoded_def)
      with Inr True show ?thesis
        by (simp add: Cons.IH key_log_def log_Print_def emit_def add_key_def)
    next
      case False
      with Inr have nv: "\<not> valid_key k" by (simp add: valid_key_def)
      with Inr False show ?thesis
        by (simp add: Cons.IH key_log_def log_Print_def emit_def)
    qed
  qed
qed

lemma update_not_Nil: "AList.update k v al \<noteq> []"
  by (cases al) auto

lemma fold_add_key_Nil: "(fold (add_key H) ks al = []) = (ks = [] \<and> al = [])"
  by (induction ks arbitrary: al) (simp_all add: add_key_def update_not_Nil)

lemma calls_key_logs: "calls (map (key_log H) xs) = []"
  by (induction xs) (auto simp: calls_def key_log_def)

lemma clip_serve_key_logs: "filter is_clip_serve (map (key_log H) xs) = []"
  by (induction xs) (auto simp: key_log_def split: if_splits)

lemma clipServe_eq:
  "clipServe H cfg s =
     (if filter valid_key (GUI_Clp_Keys cfg) = []
      then s\<lparr>trace := trace s @ map (key_log H) (enumerate 0 (GUI_Clp_Keys cfg))\<rparr>
      else s\<lparr>trace := trace s @ map (key_log H) (enumerate 0 (GUI_Clp_Keys cfg))
                 @ [EvClipServe (GUI_Clp_Port cfg) (GUI_Clp_LE cfg)
                      (fold (add_key H) (filter valid_key (GUI_Clp_Keys cfg)) [])
                      compatibleMagic],
             clipHelp := serving_msg
               (length (fold (add_key H) (filter valid_key (GUI_Clp_Keys cfg)) []))
               (GUI_Clp_Port cfg)\<rparr>)"
proof (cases "GUI_Clp_Keys cfg = []")
  case True
  then show ?thesis by (simp add: clipServe_def)
next
  case False
  then show ?thesis
    by (simp add: clipServe_def clip_keys_eq fold_add_key_Nil emit_def)
qed

text \<open>
  C10. \<open>clipServe\<close> logs one line for each configured key: \<open>Bad gclpr public key i.
  Ignoring\<close> for a key at index \<open>i\<close> whose hex decoding fails or gives other than 32
  bytes, and goes on to the next key; the line of a found key otherwise. The keys it
  passes to the server are built from the valid keys alone. The server is started
  exactly when there is a valid key among the configured ones. With no valid key
  \<open>clipServe\<close> makes no call, and leaves the world and \<open>clipHelp\<close> as they were: only the
  log lines are added.
\<close>

theorem clipServe_skips_bad_keys:
  "clipServe H cfg s =
     (if filter valid_key (GUI_Clp_Keys cfg) = []
      then s\<lparr>trace := trace s @ map (key_log H) (enumerate 0 (GUI_Clp_Keys cfg))\<rparr>
      else s\<lparr>trace := trace s @ map (key_log H) (enumerate 0 (GUI_Clp_Keys cfg))
                 @ [EvClipServe (GUI_Clp_Port cfg) (GUI_Clp_LE cfg)
                      (fold (add_key H) (filter valid_key (GUI_Clp_Keys cfg)) [])
                      compatibleMagic],
             clipHelp := serving_msg
               (length (fold (add_key H) (filter valid_key (GUI_Clp_Keys cfg)) []))
               (GUI_Clp_Port cfg)\<rparr>)
   \<and> (filter is_clip_serve (new_events s (clipServe H cfg s)) \<noteq> []) =
       (filter valid_key (GUI_Clp_Keys cfg) \<noteq> [])
   \<and> (filter valid_key (GUI_Clp_Keys cfg) = [] \<longrightarrow>
         world (clipServe H cfg s) = world s \<and> clipHelp (clipServe H cfg s) = clipHelp s
         \<and> calls (new_events s (clipServe H cfg s)) = [])"
proof (cases "filter valid_key (GUI_Clp_Keys cfg) = []")
  case True
  then show ?thesis
    by (simp add: clipServe_eq new_events_def calls_key_logs clip_serve_key_logs)
next
  case False
  then show ?thesis
    by (simp add: clipServe_eq new_events_def clip_serve_key_logs)
qed

theorem clipServe_skips_bad_keys_witness:
  "world (clipServe toy_hash clip_bad_cfg (sim_init sim_empty)) = sim_empty
   \<and> clipHelp (clipServe toy_hash clip_bad_cfg (sim_init sim_empty)) = []
   \<and> trace (clipServe toy_hash clip_bad_cfg (sim_init sim_empty)) =
       [EvLog ''Bad gclpr public key 0. Ignoring'', EvLog ''Bad gclpr public key 1. Ignoring'',
        EvLog ''Bad gclpr public key 2. Ignoring'']
   \<and> filter is_clip_serve
        (new_events (sim_init sim_empty) (clipServe toy_hash clip_cfg (sim_init sim_empty))) \<noteq> []
   \<and> clipHelp (clipServe toy_hash clip_cfg (sim_init sim_empty)) =
       ''---------------------------'' @ [CHR 0x0A] @ ''gclpr is serving 1 key(s) on port 2850''"
proof -
  let ?s = "sim_init sim_empty"
  have bad: "filter valid_key (GUI_Clp_Keys clip_bad_cfg) = []"
    by code_simp
  have good: "filter valid_key (GUI_Clp_Keys clip_cfg) \<noteq> []"
    by code_simp
  from clipServe_skips_bad_keys [of toy_hash clip_bad_cfg ?s] bad
  have 1: "world (clipServe toy_hash clip_bad_cfg ?s) = world ?s"
    and 2: "clipHelp (clipServe toy_hash clip_bad_cfg ?s) = clipHelp ?s"
    by simp_all
  from clipServe_skips_bad_keys [of toy_hash clip_cfg ?s] good
  have 3: "filter is_clip_serve (new_events ?s (clipServe toy_hash clip_cfg ?s)) \<noteq> []"
    by blast
  have 4: "trace (clipServe toy_hash clip_bad_cfg ?s) =
       [EvLog ''Bad gclpr public key 0. Ignoring'', EvLog ''Bad gclpr public key 1. Ignoring'',
        EvLog ''Bad gclpr public key 2. Ignoring'']"
    by code_simp
  have 5: "clipHelp (clipServe toy_hash clip_cfg ?s) =
       ''---------------------------'' @ [CHR 0x0A] @ ''gclpr is serving 1 key(s) on port 2850''"
    by code_simp
  from 1 2 3 4 5 show ?thesis by (simp add: sim_init_def)
qed

end
